theory Spec2Isabelle
  imports Complex_Main "HOL-Library.Sublist" "HOL-Library.Monad_Syntax"
begin

section \<open>Values of the source language\<close>

text \<open>
  The program is TypeScript. A string is modelled as an Isabelle \<open>string\<close>: a list of
  8-bit characters, read as the code units U+0000 .. U+00FF. Text with code units beyond
  U+00FF is outside the model.

  A number of type \<open>num\<close> is an exact real or NaN: every arithmetic step on it is exact,
  so a result stated over \<open>num\<close> is a result about the formula the code evaluates, before
  the rounding of the IEEE doubles. NaN is modelled because the code can produce it without
  any rounding, by multiplying a string with a number. Where the rounding decides a
  property, as for the upper bound of the similarity score, the function is modelled a
  second time with every operation rounded to a double (\<open>fl\<close> and \<open>cosineSimilarity_double\<close>
  below).
\<close>

datatype num = Num real | NaN

fun num_add :: "num \<Rightarrow> num \<Rightarrow> num" where
  "num_add (Num a) (Num b) = Num (a + b)"
| "num_add _ _ = NaN"

fun num_sub :: "num \<Rightarrow> num \<Rightarrow> num" where
  "num_sub (Num a) (Num b) = Num (a - b)"
| "num_sub _ _ = NaN"

fun num_mul :: "num \<Rightarrow> num \<Rightarrow> num" where
  "num_mul (Num a) (Num b) = Num (a * b)"
| "num_mul _ _ = NaN"

text \<open>
  Every divisor of the modelled code is a word count of at least 1, the constant 100, or a
  product of square roots of two non-zero sums of squares, so no division by zero occurs
  in exact arithmetic; the model gives NaN there.
\<close>

fun num_div :: "num \<Rightarrow> num \<Rightarrow> num" where
  "num_div (Num a) (Num b) = (if b = 0 then NaN else Num (a / b))"
| "num_div _ _ = NaN"

fun num_sqrt :: "num \<Rightarrow> num" where
  "num_sqrt (Num a) = (if a < 0 then NaN else Num (sqrt a))"
| "num_sqrt NaN = NaN"

text \<open>\<open>x > y\<close>, \<open>x < y\<close> and \<open>x === y\<close> on numbers: every comparison with NaN is false.\<close>

fun num_gt :: "num \<Rightarrow> num \<Rightarrow> bool" where
  "num_gt (Num a) (Num b) = (a > b)"
| "num_gt _ _ = False"

fun num_lt :: "num \<Rightarrow> num \<Rightarrow> bool" where
  "num_lt (Num a) (Num b) = (a < b)"
| "num_lt _ _ = False"

fun num_eq :: "num \<Rightarrow> num \<Rightarrow> bool" where
  "num_eq (Num a) (Num b) = (a = b)"
| "num_eq _ _ = False"

text \<open>\<open>x >= y\<close>, used to state that a list is in non-increasing order.\<close>

fun num_ge :: "num \<Rightarrow> num \<Rightarrow> bool" where
  "num_ge (Num a) (Num b) = (a \<ge> b)"
| "num_ge _ _ = False"

section \<open>String operations of the runtime\<close>

text \<open>The sentence terminators of the two patterns \<open>[^.!?]+[.!?]+\<close> and of the trimming.\<close>

definition is_terminator :: "char \<Rightarrow> bool" where
  "is_terminator c = (c = CHR ''.'' \<or> c = CHR ''!'' \<or> c = CHR ''?'')"




text \<open>
  White space, as the pattern \<open>\s\<close> and \<open>trim()\<close> read it, among the code units up to
  U+00FF: tab, line feed, vertical tab, form feed, carriage return, space and no-break
  space.
\<close>

definition is_space :: "char \<Rightarrow> bool" where
  "is_space c = (c \<in> set [CHR 0x09, CHR 0x0A, CHR 0x0B, CHR 0x0C, CHR 0x0D, CHR 0x20, CHR 0xA0])"

text \<open>The pattern \<open>\w\<close>: ASCII letters, digits and the underscore.\<close>

definition is_word_char :: "char \<Rightarrow> bool" where
  "is_word_char c =
     (let n = (of_char c :: nat)
      in (48 \<le> n \<and> n \<le> 57) \<or> (65 \<le> n \<and> n \<le> 90) \<or> n = 95 \<or> (97 \<le> n \<and> n \<le> 122))"

text \<open>
  \<open>toLowerCase()\<close> on one code unit up to U+00FF: the ASCII capitals and the capitals
  U+00C0 .. U+00DE (without the multiplication sign U+00D7) move up by 32.
\<close>

definition lower_char :: "char \<Rightarrow> char" where
  "lower_char c =
     (let n = (of_char c :: nat)
      in if (65 \<le> n \<and> n \<le> 90) \<or> (192 \<le> n \<and> n \<le> 222 \<and> n \<noteq> 215)
         then char_of (n + 32) else c)"

definition toLowerCase :: "string \<Rightarrow> string" where
  "toLowerCase s = map lower_char s"

definition trim :: "string \<Rightarrow> string" where
  "trim s = rev (dropWhile is_space (rev (dropWhile is_space s)))"

text \<open>\<open>s.replace(/\s+/g, ' ')\<close>: every maximal run of white space becomes one space.\<close>

fun collapse_spaces :: "bool \<Rightarrow> string \<Rightarrow> string" where
  "collapse_spaces in_run [] = []"
| "collapse_spaces in_run (c # cs) =
     (if is_space c then (if in_run then collapse_spaces True cs
                          else CHR '' '' # collapse_spaces True cs)
      else c # collapse_spaces False cs)"

text \<open>
  \<open>s.split(/\s+/)\<close>: the fields between the maximal runs of white space. A run at the
  start or at the end leaves an empty field there, and the empty string gives one empty
  field. The first argument is the field being read, reversed.
\<close>

fun split_fields :: "string \<Rightarrow> bool \<Rightarrow> string \<Rightarrow> string list" where
  "split_fields cur in_run [] = [rev cur]"
| "split_fields cur in_run (c # cs) =
     (if is_space c then (if in_run then split_fields cur True cs
                          else rev cur # split_fields [] True cs)
      else split_fields (c # cur) False cs)"

definition split_spaces :: "string \<Rightarrow> string list" where
  "split_spaces s = split_fields [] False s"

text \<open>
  \<open>s.split(/\n{2,}/)\<close>: the fields between the maximal runs of two or more line feeds.
  The second argument counts the line feeds read since the last other character; a single
  line feed stays in its field.
\<close>

fun split_blank :: "string \<Rightarrow> nat \<Rightarrow> string \<Rightarrow> string list" where
  "split_blank cur pending [] =
     (if pending \<ge> 2 then [rev cur, []]
      else [rev (replicate pending (CHR 0x0A) @ cur)])"
| "split_blank cur pending (c # cs) =
     (if c = CHR 0x0A then split_blank cur (Suc pending) cs
      else if pending \<ge> 2 then rev cur # split_blank [c] 0 cs
      else split_blank (c # replicate pending (CHR 0x0A) @ cur) 0 cs)"

definition split_paragraphs :: "string \<Rightarrow> string list" where
  "split_paragraphs s = split_blank [] 0 s"

text \<open>\<open>xs.join(sep)\<close>.\<close>

fun join :: "string \<Rightarrow> string list \<Rightarrow> string" where
  "join sep [] = []"
| "join sep [x] = x"
| "join sep (x # y # ys) = x @ sep @ join sep (y # ys)"

text \<open>
  \<open>s.match(/[^.!?]+[.!?]+/g) || []\<close>: the successive matches, left to right. A match is a
  maximal run of characters that are no terminators, followed by a maximal run of
  terminators; terminators with no such run before them, and a last run that no
  terminator follows, are skipped. The first two arguments are the run of
  non-terminators and the run of terminators being read, both reversed.
\<close>

fun match_scan :: "string \<Rightarrow> string \<Rightarrow> string \<Rightarrow> string list" where
  "match_scan body terms [] = (if body \<noteq> [] \<and> terms \<noteq> [] then [rev body @ rev terms] else [])"
| "match_scan body terms (c # cs) =
     (if is_terminator c then (if body = [] then match_scan [] [] cs
                               else match_scan body (c # terms) cs)
      else if terms \<noteq> [] then (rev body @ rev terms) # match_scan [c] [] cs
      else match_scan (c # body) [] cs)"

definition match_sentences :: "string \<Rightarrow> string list" where
  "match_sentences s = match_scan [] [] s"

text \<open>\<open>String(n)\<close> for a natural number: its decimal digits.\<close>

fun decimal :: "nat \<Rightarrow> string" where
  "decimal n = (if n < 10 then [char_of (48 + n)] else decimal (n div 10) @ [char_of (48 + n mod 10)])"

declare decimal.simps [simp del]

text \<open>
  \<open>xs.sort(comparefn)\<close>. The language converts a NaN returned by the comparator to 0,
  and asks for a stable sort. The model is straight insertion from the left, which keeps
  an element behind every earlier one the comparator does not put strictly after it;
  \<open>insert_sorted\<close> works on the reversed sorted prefix.

  When the comparator is consistent (for the two comparators of the code: when every key
  is a number), the language fixes the result, and the model gives it. When it is not (a
  NaN among the keys), the language leaves the order to the engine, and the model follows
  the engine in one case only: an array in which the comparator puts no element strictly
  before its left neighbour stays as it is (\<open>js_sort_run\<close>). That is what V8 does, the
  engine of Node.js, on which the service runs: its sort first takes the longest run from
  the left, going on while \<open>comparefn(next, previous)\<close> is not negative, and has
  nothing left to do when the run is the whole array. (The comparators of the code are
  differences \<open>key(b) - key(a)\<close>, for which \<open>comparefn(next, previous)\<close> is not
  negative exactly when \<open>comparefn(previous, next)\<close> is not positive, the test of the
  model.) On any other array with a NaN among
  the keys the order of the model need not be the order of the engine; the results below
  about all stores use of the sorted array only that it holds the same elements, and that
  it is in order when every key is a number.
\<close>

definition sort_compare :: "('a \<Rightarrow> 'a \<Rightarrow> num) \<Rightarrow> 'a \<Rightarrow> 'a \<Rightarrow> real" where
  "sort_compare comparefn x y = (case comparefn x y of NaN \<Rightarrow> 0 | Num v \<Rightarrow> v)"

fun insert_sorted :: "('a \<Rightarrow> 'a \<Rightarrow> num) \<Rightarrow> 'a \<Rightarrow> 'a list \<Rightarrow> 'a list" where
  "insert_sorted comparefn x [] = [x]"
| "insert_sorted comparefn x (y # ys) =
     (if sort_compare comparefn y x > 0 then y # insert_sorted comparefn x ys
      else x # y # ys)"

definition js_sort :: "('a \<Rightarrow> 'a \<Rightarrow> num) \<Rightarrow> 'a list \<Rightarrow> 'a list" where
  "js_sort comparefn xs = rev (foldl (\<lambda>placed x. insert_sorted comparefn x placed) [] xs)"

text \<open>
  \<open>xs.slice(0, end)\<close> for an integer \<open>end\<close>: a negative \<open>end\<close> counts from the end of
  the array.
\<close>

definition slice0 :: "'a list \<Rightarrow> int \<Rightarrow> 'a list" where
  "slice0 xs end_index =
     (if end_index < 0 then take (nat (int (length xs) + end_index)) xs
      else take (nat end_index) xs)"

text \<open>\<open>xs.findIndex(p)\<close>, with \<open>None\<close> for the result -1, and \<open>xs.find(p)\<close>.\<close>

fun findIndex :: "('a \<Rightarrow> bool) \<Rightarrow> 'a list \<Rightarrow> nat option" where
  "findIndex p [] = None"
| "findIndex p (x # xs) = (if p x then Some 0 else map_option Suc (findIndex p xs))"

section \<open>The chunker\<close>

text \<open>
  The body of \<open>sentences.forEach\<close> in \<open>addDocuments\<close>, on the state
  \<open>(chunks, currentChunk, currentLength)\<close>.
\<close>

definition add_sentence :: "string list \<times> string \<times> nat \<Rightarrow> string \<Rightarrow> string list \<times> string \<times> nat" where
  "add_sentence st sentence =
     (case st of (chunks, currentChunk, currentLength) \<Rightarrow>
        let trimmedSentence = trim sentence
        in if length trimmedSentence < 10 then st
           else
             let sentenceLength = length (split_spaces trimmedSentence)
             in if currentLength > 0 \<and> currentLength + sentenceLength > 200
                then (if length currentChunk > 50 then chunks @ [currentChunk] else chunks,
                      trimmedSentence, sentenceLength)
                else (chunks,
                      currentChunk @ (if currentChunk \<noteq> [] then '' '' else []) @ trimmedSentence,
                      currentLength + sentenceLength))"

definition sentence_chunks :: "string list \<Rightarrow> string list" where
  "sentence_chunks sentences =
     (case foldl add_sentence ([], [], 0) sentences of
        (chunks, currentChunk, currentLength) \<Rightarrow>
          if length currentChunk > 50 then chunks @ [currentChunk] else chunks)"

definition paragraph_chunks :: "string \<Rightarrow> string list" where
  "paragraph_chunks content =
     filter (\<lambda>p. length p > 50) (map trim (split_paragraphs content))"

text \<open>The loop \<open>for (i = 0; i < words.length; i += 200)\<close>, on the words from \<open>i\<close> on.\<close>

function word_windows :: "string list \<Rightarrow> string list" where
  "word_windows words =
     (if words = [] then []
      else
        let chunk = join '' '' (take 200 words)
        in (if length chunk > 50 then [chunk] else []) @ word_windows (drop 200 words))"
  by pat_completeness auto
termination
  by (relation "measure length") auto

declare word_windows.simps [simp del]

definition window_chunks :: "string \<Rightarrow> string list" where
  "window_chunks content = word_windows (split_spaces content)"

text \<open>The \<open>else\<close> branch: paragraphs, and word windows in their place.\<close>

definition fallback_chunks :: "string \<Rightarrow> string list" where
  "fallback_chunks content =
     (let chunks = paragraph_chunks content
      in if length chunks \<le> 1 \<and> length content > 500 then window_chunks content
         else chunks)"

text \<open>The chunks of one document's content, before the title is added.\<close>

definition chunk_content :: "string \<Rightarrow> string list" where
  "chunk_content content =
     (let sentences = match_sentences content
      in if length sentences > 0 then sentence_chunks sentences
         else fallback_chunks content)"

text \<open>
  Whether the sentence pattern matches somewhere: a terminator directly follows a
  character that is no terminator.
\<close>

fun has_boundary :: "string \<Rightarrow> bool" where
  "has_boundary (a # t # cs) = ((\<not> is_terminator a \<and> is_terminator t) \<or> has_boundary (t # cs))"
| "has_boundary _ = False"

text \<open>
  Whether the scan of \<open>match_scan\<close> ends without a match, when no terminator is being
  read; \<open>pending\<close> says that a run of other characters is being read.
\<close>

fun no_match :: "bool \<Rightarrow> string \<Rightarrow> bool" where
  "no_match pending [] = True"
| "no_match pending (c # cs) =
     (if is_terminator c then (if pending then False else no_match False cs)
      else no_match True cs)"

definition add_title :: "string \<Rightarrow> string list \<Rightarrow> string list" where
  "add_title title chunks =
     (case chunks of
        [] \<Rightarrow> []
      | first # others \<Rightarrow> if title \<noteq> [] then (title @ ''. '' @ first) # others else chunks)"

section \<open>The vector store: data\<close>

record Document =
  doc_url :: string
  doc_title :: string
  doc_content :: string

record Metadata =
  url :: string
  title :: string

text \<open>An element of \<open>this.documents\<close>.\<close>

record StoredChunk =
  chunk_id :: string
  content :: string
  metadata :: Metadata
  embedding :: "num list"

text \<open>An element of the array \<open>queryRelevantContent\<close> returns.\<close>

record ScoredChunk =
  sc_content :: string
  sc_metadata :: Metadata
  score :: num

text \<open>The fields of the \<open>VectorStore\<close> instance.\<close>

record VectorStore =
  documents :: "StoredChunk list"
  initialized :: bool
  stopWords :: "string list"

definition STOP_WORDS :: "string list" where
  "STOP_WORDS =
     [''the'', ''and'', ''or'', ''of'', ''to'', ''a'', ''in'', ''that'', ''it'', ''is'', ''was'', ''for'',
      ''on'', ''with'', ''as'', ''be'', ''at'', ''this'', ''but'', ''by'', ''from'', ''an'', ''not'',
      ''what'', ''all'', ''are'', ''were'', ''when'', ''we'', ''you'', ''they'', ''have'', ''had'']"

text \<open>The instance as the private constructor leaves it.\<close>

definition new_VectorStore :: VectorStore where
  "new_VectorStore = \<lparr>documents = [], initialized = False, stopWords = STOP_WORDS\<rparr>"

section \<open>The embedder\<close>

definition cleanText :: "string \<Rightarrow> string" where
  "cleanText text =
     trim (collapse_spaces False
       (map (\<lambda>c. if is_word_char c \<or> is_space c then c else CHR '' '') (toLowerCase text)))"

text \<open>
  \<open>features\<close> is an object literal used as a dictionary; its values are numbers, and
  strings where the \<open>+\<close> of the source met a value that is no number. The own properties
  are kept in the order of their creation.
\<close>

datatype jsval = JNum num | JStr string

type_synonym features = "(string \<times> jsval) list"

text \<open>
  An object literal inherits from \<open>Object.prototype\<close>. After \<open>cleanText\<close> a key is in
  lower case, and the only lower-case property names of \<open>Object.prototype\<close> are
  \<open>constructor\<close> (the function \<open>Object\<close>) and \<open>__proto__\<close> (the prototype object).
  Both values are truthy, and \<open>+\<close> turns them into these strings before it appends.
\<close>

definition inherited_text :: "string \<Rightarrow> string option" where
  "inherited_text key =
     (if key = ''constructor'' then Some ''function Object() { [native code] }''
      else if key = ''__proto__'' then Some ''[object Object]''
      else None)"

text \<open>\<open>features[key] || 0\<close>: an own property, else an inherited one, else \<open>undefined\<close>.\<close>

definition get_or_zero :: "features \<Rightarrow> string \<Rightarrow> jsval" where
  "get_or_zero fs key =
     (case map_of fs key of
        Some (JNum NaN) \<Rightarrow> JNum (Num 0)
      | Some (JNum (Num v)) \<Rightarrow> JNum (Num v)
      | Some (JStr s) \<Rightarrow> if s = [] then JNum (Num 0) else JStr s
      | None \<Rightarrow> (case inherited_text key of Some s \<Rightarrow> JStr s | None \<Rightarrow> JNum (Num 0)))"

text \<open>\<open>v + n\<close> for a number \<open>n\<close> whose decimal text is \<open>n_text\<close>.\<close>

fun js_plus :: "jsval \<Rightarrow> real \<Rightarrow> string \<Rightarrow> jsval" where
  "js_plus (JNum v) n n_text = JNum (num_add v (Num n))"
| "js_plus (JStr s) n n_text = JStr (s @ n_text)"

text \<open>
  \<open>features[key] = v\<close>. The setter of \<open>__proto__\<close> ignores a value that is no object, so
  that assignment creates no property.
\<close>

fun put_property :: "features \<Rightarrow> string \<Rightarrow> jsval \<Rightarrow> features" where
  "put_property [] key v = [(key, v)]"
| "put_property ((k, w) # fs) key v =
     (if k = key then (k, v) # fs else (k, w) # put_property fs key v)"

definition set_property :: "features \<Rightarrow> string \<Rightarrow> jsval \<Rightarrow> features" where
  "set_property fs key v = (if key = ''__proto__'' then fs else put_property fs key v)"

text \<open>
  \<open>ToNumber\<close> of a value of \<open>features\<close>. Every string that arises there starts with one
  of the two inherited texts, so it is no numeric literal and converts to NaN.
\<close>

fun to_number :: "jsval \<Rightarrow> num" where
  "to_number (JNum v) = v"
| "to_number (JStr s) = NaN"

text \<open>
  \<open>Object.entries\<close>: the keys that are array indices (canonical decimal numerals up to
  \<open>2^32 - 2\<close>) come first, in ascending order; the others follow in the order of creation.
\<close>

definition is_digit :: "char \<Rightarrow> bool" where
  "is_digit c = (let n = (of_char c :: nat) in 48 \<le> n \<and> n \<le> 57)"

definition parse_decimal :: "string \<Rightarrow> nat" where
  "parse_decimal s = foldl (\<lambda>n c. 10 * n + (of_char c - 48)) 0 s"

definition is_array_index :: "string \<Rightarrow> bool" where
  "is_array_index key =
     (key \<noteq> [] \<and> list_all is_digit key \<and> (key = ''0'' \<or> hd key \<noteq> CHR ''0'')
      \<and> parse_decimal key \<le> 4294967294)"

definition object_entries :: "features \<Rightarrow> features" where
  "object_entries fs =
     sort_key (\<lambda>e. parse_decimal (fst e)) (filter (\<lambda>e. is_array_index (fst e)) fs)
     @ filter (\<lambda>e. \<not> is_array_index (fst e)) fs"

text \<open>\<open>Object.fromEntries\<close> defines the properties one by one; a later key replaces an equal one.\<close>

definition from_entries :: "features \<Rightarrow> features" where
  "from_entries es = foldl (\<lambda>obj e. put_property obj (fst e) (snd e)) [] es"

definition passes_filter :: "string list \<Rightarrow> string \<Rightarrow> bool" where
  "passes_filter stops word = (length word > 2 \<and> word \<notin> set stops)"

definition add_unigram :: "string list \<Rightarrow> features \<Rightarrow> string \<Rightarrow> features" where
  "add_unigram stops fs word =
     (if passes_filter stops word
      then set_property fs word (js_plus (get_or_zero fs word) 1 ''1'')
      else fs)"

definition add_bigram :: "string list \<Rightarrow> features \<Rightarrow> string \<times> string \<Rightarrow> features" where
  "add_bigram stops fs pair =
     (case pair of (word1, word2) \<Rightarrow>
        if length word1 > 2 \<and> length word2 > 2 \<and> word1 \<notin> set stops \<and> word2 \<notin> set stops
        then
          let bigram = word1 @ ''_'' @ word2
          in set_property fs bigram (js_plus (get_or_zero fs bigram) 0.8 ''0.8'')
        else fs)"

text \<open>The callback of the positional weighting, on one entry of \<open>features\<close>.\<close>

definition position_weight :: "string list \<Rightarrow> string \<times> jsval \<Rightarrow> string \<times> jsval" where
  "position_weight words entry =
     (case entry of (feature, count) \<Rightarrow>
        (case findIndex (\<lambda>w. w = feature \<or> prefix (w @ ''_'') feature) words of
           Some firstPosition \<Rightarrow>
             let posWeight = 1.0 - (real (min firstPosition 100) / 100) * 0.5
             in (feature, JNum (num_mul (to_number count) (Num posWeight)))
         | None \<Rightarrow> (feature, count)))"

text \<open>
  \<open>posWeightedFeatures[feature] / normalizer\<close>: a key that is no own property reads an
  inherited value or \<open>undefined\<close>, and the quotient is NaN.
\<close>

definition weight_of :: "features \<Rightarrow> string \<Rightarrow> real \<Rightarrow> num" where
  "weight_of pw feature normalizer =
     (case map_of pw feature of
        Some v \<Rightarrow> num_div (to_number v) (Num normalizer)
      | None \<Rightarrow> NaN)"

definition embed :: "string list \<Rightarrow> string \<Rightarrow> num list" where
  "embed stops text =
     (let cleanedText = cleanText text;
          words = split_spaces cleanedText;
          unigrams = foldl (add_unigram stops) [] words;
          features = foldl (add_bigram stops) unigrams (zip words (tl words));
          posWeightedFeatures = from_entries (map (position_weight words) (object_entries features));
          topFeatures =
            map fst (take 384
              (js_sort (\<lambda>a b. num_sub (to_number (snd b)) (to_number (snd a)))
                 (object_entries posWeightedFeatures)));
          normalizer = (if length words = 0 then 1 else real (length words))
      in foldl (\<lambda>embedding (index, feature).
                  embedding[index := weight_of posWeightedFeatures feature normalizer])
           (replicate 384 (Num 0)) (zip [0 ..< length topFeatures] topFeatures))"

text \<open>Every value of a feature object is a number that is not negative.\<close>

definition counts_ok :: "features \<Rightarrow> bool" where
  "counts_ok fs = (\<forall>e\<in>set fs. \<exists>r\<ge>0. snd e = JNum (Num r))"

text \<open>
  The values that the last loop of \<open>embed\<close> writes, in the order of their indices
  (\<open>embed_eq\<close> below): the weights of the top features by rank.
\<close>

definition top_weights :: "string list \<Rightarrow> string \<Rightarrow> num list" where
  "top_weights stops text =
     (let cleanedText = cleanText text;
          words = split_spaces cleanedText;
          unigrams = foldl (add_unigram stops) [] words;
          features = foldl (add_bigram stops) unigrams (zip words (tl words));
          posWeightedFeatures = from_entries (map (position_weight words) (object_entries features));
          topFeatures =
            map fst (take 384
              (js_sort (\<lambda>a b. num_sub (to_number (snd b)) (to_number (snd a)))
                 (object_entries posWeightedFeatures)));
          normalizer = (if length words = 0 then 1 else real (length words))
      in map (\<lambda>feature. weight_of posWeightedFeatures feature normalizer) topFeatures)"

text \<open>The method reads \<open>this.stopWords\<close> and nothing else of the instance.\<close>

definition createEmbedding :: "VectorStore \<Rightarrow> string \<Rightarrow> num list" where
  "createEmbedding this text = embed (stopWords this) text"

section \<open>The similarity scorer\<close>

text \<open>
  The scorer on values of type \<open>num\<close>: the formula of the method in exact arithmetic,
  with NaN. The loop over \<open>i < Math.min(vecA.length, vecB.length)\<close> acts on
  \<open>(dotProduct, normA, normB)\<close>.
\<close>

definition accumulate :: "num \<times> num \<times> num \<Rightarrow> num \<times> num \<Rightarrow> num \<times> num \<times> num" where
  "accumulate acc pair =
     (case acc of (dotProduct, normA, normB) \<Rightarrow>
        (case pair of (a, b) \<Rightarrow>
           (num_add dotProduct (num_mul a b), num_add normA (num_mul a a),
            num_add normB (num_mul b b))))"

definition nonZero :: "num list \<Rightarrow> nat" where
  "nonZero vec = length (filter (\<lambda>v. num_gt v (Num 0)) vec)"

definition cosineSimilarity :: "num list \<Rightarrow> num list \<Rightarrow> num" where
  "cosineSimilarity vecA vecB =
     (case foldl accumulate (Num 0, Num 0, Num 0) (zip vecA vecB) of
        (dotProduct, normA, normB) \<Rightarrow>
          if num_eq normA (Num 0) \<or> num_eq normB (Num 0) then Num 0
          else
            let similarity = num_div dotProduct (num_mul (num_sqrt normA) (num_sqrt normB));
                nonZeroA = nonZero vecA;
                nonZeroB = nonZero vecB;
                lengthRatio = real (min nonZeroA nonZeroB) / real (max (max nonZeroA nonZeroB) 1)
            in num_mul similarity (Num (0.7 + 0.3 * lengthRatio)))"

text \<open>The three sums of the loop, over pairs of real numbers.\<close>

definition dot_sum :: "(real \<times> real) list \<Rightarrow> real" where
  "dot_sum ps = (\<Sum>p\<leftarrow>ps. fst p * snd p)"

definition left_sum :: "(real \<times> real) list \<Rightarrow> real" where
  "left_sum ps = (\<Sum>p\<leftarrow>ps. fst p * fst p)"

definition right_sum :: "(real \<times> real) list \<Rightarrow> real" where
  "right_sum ps = (\<Sum>p\<leftarrow>ps. snd p * snd p)"

subsection \<open>The scorer in double arithmetic\<close>

text \<open>
  The numbers of the program are IEEE 754 doubles: every operation returns the exact
  result rounded to the nearest number with a significand of 53 bits, a tie going to the
  even significand. \<open>round_even\<close> rounds a real to the nearest integer in that way, and
  \<open>fl x\<close> rounds \<open>x\<close> to 53 bits: for \<open>2 ^ e \<le> \<bar>x\<bar> < 2 ^ (e + 1)\<close> the doubles are the
  multiples of \<open>2 ^ (e - 52)\<close>. The exponent is not bounded in \<open>fl\<close>, so it is the
  rounding of the doubles only for results of a size from \<open>2 ^ -1022\<close> to below
  \<open>2 ^ 1024\<close>; \<open>fl_ieee\<close> below checks that range.
\<close>

definition round_even :: "real \<Rightarrow> int" where
  "round_even x =
     (let f = \<lfloor>x\<rfloor>; d = x - of_int f
      in if d < 1/2 then f else if d > 1/2 then f + 1 else if even f then f else f + 1)"

definition fl :: "real \<Rightarrow> real" where
  "fl x =
     (if x = 0 then 0
      else
        let e = \<lfloor>log 2 \<bar>x\<bar>\<rfloor>
        in sgn x * of_int (round_even (\<bar>x\<bar> * 2 powr of_int (52 - e))) * 2 powr of_int (e - 52))"

text \<open>
  Half the distance from 1 to the next double: one rounding changes a result \<open>x\<close> by at
  most \<open>unit_roundoff * \<bar>x\<bar>\<close>.
\<close>

definition unit_roundoff :: real where
  "unit_roundoff = 1 / 2 ^ 53"

text \<open>
  A result outside the range of the normal doubles is not modelled: \<open>fl_ieee x\<close> is
  \<open>None\<close> when \<open>x\<close> is not 0 and smaller in size than \<open>2 ^ -1022\<close> (the doubles are
  subnormal there and round with an absolute error), and when the rounded result reaches
  \<open>2 ^ 1024\<close> (the double is Infinity). Otherwise it is the rounded result.
\<close>

definition fl_ieee :: "real \<Rightarrow> real option" where
  "fl_ieee x =
     (if x = 0 then Some 0
      else if \<bar>x\<bar> < 1 / 2 ^ 1022 \<or> 2 ^ 1024 \<le> \<bar>fl x\<bar> then None
      else Some (fl x))"

text \<open>\<open>in_range a b x\<close>: \<open>x\<close> is 0, or lies between \<open>2 ^ -a\<close> and \<open>2 ^ b\<close>.\<close>

definition in_range :: "nat \<Rightarrow> nat \<Rightarrow> real \<Rightarrow> bool" where
  "in_range a b x = (x = 0 \<or> 1 / 2 ^ a \<le> x \<and> x \<le> 2 ^ b)"

text \<open>
  \<open>cosineSimilarity\<close> on vectors of doubles that are numbers, with the rounding after
  every operation: the products and the sums of the loop, the two square roots
  (\<open>Math.sqrt\<close> returns the rounded root), their product, the two quotients, and the
  literals 0.7 and 0.3, which are the doubles nearest to these decimals. The counts
  \<open>nonZeroA\<close> and \<open>nonZeroB\<close> are small integers and exact. The result is \<open>None\<close> when
  some operation leaves the range of the normal doubles; the denominator of the first
  quotient is then never 0, as \<open>normA\<close> and \<open>normB\<close> are not.
\<close>

definition accumulate_double ::
  "real \<times> real \<times> real \<Rightarrow> real \<times> real \<Rightarrow> (real \<times> real \<times> real) option" where
  "accumulate_double acc pair =
     (case acc of (dotProduct, normA, normB) \<Rightarrow>
        (case pair of (a, b) \<Rightarrow>
           do {
             ab \<leftarrow> fl_ieee (a * b);
             dotProduct' \<leftarrow> fl_ieee (dotProduct + ab);
             aa \<leftarrow> fl_ieee (a * a);
             normA' \<leftarrow> fl_ieee (normA + aa);
             bb \<leftarrow> fl_ieee (b * b);
             normB' \<leftarrow> fl_ieee (normB + bb);
             Some (dotProduct', normA', normB')
           }))"

definition cosineSimilarity_double :: "real list \<Rightarrow> real list \<Rightarrow> real option" where
  "cosineSimilarity_double vecA vecB =
     do {
       (dotProduct, normA, normB) \<leftarrow>
         foldl (\<lambda>acc pair. acc \<bind> (\<lambda>state. accumulate_double state pair)) (Some (0, 0, 0))
           (zip vecA vecB);
       if normA = 0 \<or> normB = 0 then Some 0
       else do {
         rootA \<leftarrow> fl_ieee (sqrt normA);
         rootB \<leftarrow> fl_ieee (sqrt normB);
         denominator \<leftarrow> fl_ieee (rootA * rootB);
         similarity \<leftarrow> fl_ieee (dotProduct / denominator);
         let nonZeroA = length (filter (\<lambda>v. v > 0) vecA);
         let nonZeroB = length (filter (\<lambda>v. v > 0) vecB);
         lengthRatio \<leftarrow> fl_ieee (real (min nonZeroA nonZeroB) / real (max (max nonZeroA nonZeroB) 1));
         c3 \<leftarrow> fl_ieee 0.3;
         weighted \<leftarrow> fl_ieee (c3 * lengthRatio);
         c7 \<leftarrow> fl_ieee 0.7;
         factor \<leftarrow> fl_ieee (c7 + weighted);
         fl_ieee (similarity * factor)
       }
     }"

section \<open>The deduplicator\<close>

text \<open>
  A \<open>Set\<close> of words is modelled by a list without repetition. The result is a quotient of
  two counts, so it is a real number.
\<close>

definition word_set :: "string \<Rightarrow> string list" where
  "word_set text = remdups (filter (\<lambda>w. length w > 2) (split_spaces (cleanText text)))"

definition contentSimilarity :: "string \<Rightarrow> string \<Rightarrow> real" where
  "contentSimilarity text1 text2 =
     (let words1 = word_set text1;
          words2 = word_set text2;
          commonWords = length (filter (\<lambda>word. word \<in> set words2) words1);
          totalUniqueWords = int (length words1) + int (length words2) - int commonWords
      in if totalUniqueWords > 0 then real commonWords / real_of_int totalUniqueWords else 0)"

text \<open>
  The body of \<open>filteredResults.forEach\<close>, on the state \<open>(uniqueResults, seenUrls)\<close>; the
  set of seen URLs is a list, read through membership only.
\<close>

definition keep_result :: "int \<Rightarrow> ScoredChunk list \<times> string list \<Rightarrow> ScoredChunk \<Rightarrow> ScoredChunk list \<times> string list" where
  "keep_result limit st result =
     (case st of (uniqueResults, seenUrls) \<Rightarrow>
        if url (sc_metadata result) \<notin> set seenUrls
        then (uniqueResults @ [result], seenUrls @ [url (sc_metadata result)])
        else if int (length uniqueResults) < limit
        then (case find (\<lambda>r. url (sc_metadata r) = url (sc_metadata result)) uniqueResults of
                Some existingChunk \<Rightarrow>
                  if contentSimilarity (sc_content existingChunk) (sc_content result) < 0.5
                  then (uniqueResults @ [result], seenUrls)
                  else st
              | None \<Rightarrow> st)
        else st)"

text \<open>
  The policy of the loop, as a property of a result list: a chunk that has a chunk of its
  URL before it overlaps the first chunk of that URL by less than 0.5.
\<close>

definition same_url :: "ScoredChunk \<Rightarrow> ScoredChunk \<Rightarrow> bool" where
  "same_url x r = (url (sc_metadata r) = url (sc_metadata x))"

definition first_overlap_below :: "ScoredChunk list \<Rightarrow> bool" where
  "first_overlap_below rs =
     (\<forall>ys x zs. rs = ys @ x # zs \<and> (\<exists>y\<in>set ys. same_url x y) \<longrightarrow>
        (\<exists>f. find (same_url x) ys = Some f \<and>
             contentSimilarity (sc_content f) (sc_content x) < 0.5))"

section \<open>The retrieval index\<close>

definition initialize :: "VectorStore \<Rightarrow> bool \<times> VectorStore" where
  "initialize this = (True, this\<lparr>documents := [], initialized := True\<rparr>)"

definition close :: "VectorStore \<Rightarrow> VectorStore" where
  "close this = this\<lparr>documents := [], initialized := False\<rparr>"

text \<open>The entries one document adds: the body of \<open>documents.forEach\<close>.\<close>

definition document_entries :: "VectorStore \<Rightarrow> nat \<Rightarrow> Document \<Rightarrow> StoredChunk list" where
  "document_entries this docIndex doc =
     (let chunks = add_title (doc_title doc) (chunk_content (doc_content doc))
      in map (\<lambda>(chunkIndex, chunk).
                \<lparr>chunk_id = ''doc'' @ decimal docIndex @ ''_chunk'' @ decimal chunkIndex,
                 content = chunk,
                 metadata = \<lparr>url = doc_url doc, title = doc_title doc\<rparr>,
                 embedding = createEmbedding this chunk\<rparr>)
           (zip [0 ..< length chunks] chunks))"

definition addDocuments :: "VectorStore \<Rightarrow> Document list \<Rightarrow> bool \<times> VectorStore" where
  "addDocuments this docs =
     (let (success, this1) = (if \<not> initialized this then initialize this else (True, this))
      in if \<not> success then (False, this1)
         else (True,
               this1\<lparr>documents := documents this1
                  @ concat (map (\<lambda>(docIndex, doc). document_entries this1 docIndex doc)
                              (zip [0 ..< length docs] docs))\<rparr>))"

definition SIMILARITY_THRESHOLD :: real where
  "SIMILARITY_THRESHOLD = 0.275"

definition score_chunk :: "num list \<Rightarrow> StoredChunk \<Rightarrow> ScoredChunk" where
  "score_chunk queryEmbedding doc =
     \<lparr>sc_content = content doc, sc_metadata = metadata doc,
      score = cosineSimilarity queryEmbedding (embedding doc)\<rparr>"

text \<open>The part of \<open>queryRelevantContent\<close> after the two early returns.\<close>

definition ranked_results :: "VectorStore \<Rightarrow> string \<Rightarrow> int \<Rightarrow> ScoredChunk list" where
  "ranked_results this queryText limit =
     (let queryEmbedding = createEmbedding this queryText;
          similarities = map (score_chunk queryEmbedding) (documents this);
          sorted = js_sort (\<lambda>a b. num_sub (score b) (score a)) similarities;
          filteredResults = filter (\<lambda>item. num_gt (score item) (Num SIMILARITY_THRESHOLD)) sorted;
          uniqueResults = fst (foldl (keep_result limit) ([], []) filteredResults)
      in slice0 uniqueResults limit)"

text \<open>
  The limit is an integer here; the default of the source is 5. The result is the
  returned array and the instance after the call.
\<close>

definition queryRelevantContent :: "VectorStore \<Rightarrow> string \<Rightarrow> int \<Rightarrow> ScoredChunk list \<times> VectorStore" where
  "queryRelevantContent this queryText limit =
     (let (success, this1) = (if \<not> initialized this then initialize this else (True, this))
      in if \<not> success then ([], this1)
         else if length (documents this1) = 0 then ([], this1)
         else (ranked_results this1 queryText limit, this1))"

definition DEFAULT_LIMIT :: int where
  "DEFAULT_LIMIT = 5"

section \<open>The context assembler: trimming at a sentence boundary\<close>



definition MAX_CONTEXT_LENGTH :: int where
  "MAX_CONTEXT_LENGTH = 4000"

section \<open>States of the store\<close>

text \<open>The states a store can be in: the new instance, and what the public methods make of it.\<close>

inductive reachable :: "VectorStore \<Rightarrow> bool" where
  reach_new: "reachable new_VectorStore"
| reach_initialize: "reachable this \<Longrightarrow> reachable (snd (initialize this))"
| reach_addDocuments: "reachable this \<Longrightarrow> reachable (snd (addDocuments this docs))"
| reach_query: "reachable this \<Longrightarrow> reachable (snd (queryRelevantContent this queryText limit))"
| reach_close: "reachable this \<Longrightarrow> reachable (close this)"

definition store_invariant :: "VectorStore \<Rightarrow> bool" where
  "store_invariant this = (\<not> initialized this \<longrightarrow> documents this = [])"

section \<open>Example documents\<close>

text \<open>
  A document whose content is one character 55 times: no terminator and no white space, so
  it is one paragraph, one chunk and one word. Its embedding has the single weight 1.
\<close>

definition unit_vector :: "num list" where
  "unit_vector = Num 1 # replicate 383 (Num 0)"

definition run_document :: "string \<Rightarrow> char \<Rightarrow> Document" where
  "run_document u c = \<lparr>doc_url = u, doc_title = [], doc_content = replicate 55 c\<rparr>"

definition run_entry :: "string \<Rightarrow> string \<Rightarrow> char \<Rightarrow> StoredChunk" where
  "run_entry i u c =
     \<lparr>chunk_id = i, content = replicate 55 c, metadata = \<lparr>url = u, title = []\<rparr>,
      embedding = unit_vector\<rparr>"

definition run_scored :: "string \<Rightarrow> char \<Rightarrow> ScoredChunk" where
  "run_scored u c =
     \<lparr>sc_content = replicate 55 c, sc_metadata = \<lparr>url = u, title = []\<rparr>, score = Num 1\<rparr>"

definition three_runs :: "string \<Rightarrow> string \<Rightarrow> string \<Rightarrow> VectorStore" where
  "three_runs u1 u2 u3 =
     snd (addDocuments new_VectorStore
       [run_document u1 (CHR ''a''), run_document u2 (CHR ''b''), run_document u3 (CHR ''B'')])"

text \<open>
  Two more documents: one of two words, and one whose only word of more than two
  characters is \<open>constructor\<close>.
\<close>

definition two_words :: string where
  "two_words = replicate 25 (CHR ''a'') @ '' '' @ replicate 25 (CHR ''b'')"

definition constructor_text :: string where
  "constructor_text = ''constructor'' @ concat (replicate 20 '' x'')"

definition text_document :: "string \<Rightarrow> string \<Rightarrow> Document" where
  "text_document u txt = \<lparr>doc_url = u, doc_title = [], doc_content = txt\<rparr>"

definition mixed_store :: VectorStore where
  "mixed_store =
     snd (addDocuments new_VectorStore
       [text_document ''u1'' two_words, text_document ''u2'' constructor_text,
        run_document ''u3'' (CHR ''b'')])"

definition two_words_vector :: "num list" where
  "two_words_vector = [Num (1/2), Num (199/400), Num (2/5)] @ replicate 381 (Num 0)"

definition nan_vector :: "num list" where
  "nan_vector = NaN # replicate 383 (Num 0)"

text \<open>
  The score of the two-word chunk against a query of one word: the cosine
  \<open>(1/2) / sqrt (105201/160000)\<close>, times \<open>0.7 + 0.3 * (1/3)\<close>. It is about 0.4933.
\<close>

definition two_words_score :: real where
  "two_words_score = 1/2 / sqrt (105201/160000) * (4/5)"

section \<open>Properties of the trimming\<close>















section \<open>Properties of the store's life cycle\<close>

lemma stopWords_initialize: "stopWords (snd (initialize this)) = stopWords this"
  by (simp add: initialize_def)

lemma stopWords_addDocuments: "stopWords (snd (addDocuments this docs)) = stopWords this"
  by (simp add: addDocuments_def initialize_def Let_def)

lemma stopWords_query:
  "stopWords (snd (queryRelevantContent this queryText limit)) = stopWords this"
  by (simp add: queryRelevantContent_def initialize_def Let_def)

lemma stopWords_close: "stopWords (close this) = stopWords this"
  by (simp add: close_def)

lemma reachable_stopWords: "reachable this \<Longrightarrow> stopWords this = STOP_WORDS"
  by (induction rule: reachable.induct)
     (simp_all add: new_VectorStore_def stopWords_initialize stopWords_addDocuments
        stopWords_query stopWords_close)

lemma reachable_invariant: "reachable this \<Longrightarrow> store_invariant this"
  by (induction rule: reachable.induct)
     (simp_all add: store_invariant_def new_VectorStore_def initialize_def addDocuments_def
        queryRelevantContent_def close_def Let_def)

text \<open>
  C8. \<open>createEmbedding\<close> is deterministic: it returns a value and changes nothing, and
  the value depends on the instance through \<open>stopWords\<close> only, which no method assigns.
  So in any two states the store can reach, whatever calls came before, the embeddings of
  one text are equal.
\<close>

theorem createEmbedding_deterministic:
  "reachable this1 \<Longrightarrow> reachable this2 \<Longrightarrow> createEmbedding this1 x = createEmbedding this2 x"
  by (simp add: createEmbedding_def reachable_stopWords)

theorem createEmbedding_deterministic_witness:
  "reachable (snd (initialize new_VectorStore)) \<and> reachable (close new_VectorStore) \<and>
   createEmbedding (snd (initialize new_VectorStore)) ''alpha beta''
     = createEmbedding (close new_VectorStore) ''alpha beta''"
proof -
  have r1: "reachable (snd (initialize new_VectorStore))"
    by (rule reach_initialize) (rule reach_new)
  have r2: "reachable (close new_VectorStore)"
    by (rule reach_close) (rule reach_new)
  from r1 r2 createEmbedding_deterministic [OF r1 r2, of "''alpha beta''"]
  show ?thesis by simp
qed

text \<open>
  C9. When the store is not initialized, or holds no documents, \<open>queryRelevantContent\<close>
  returns the empty array, for every query text and limit.
\<close>

theorem query_empty_store:
  "\<not> initialized this \<or> documents this = [] \<Longrightarrow>
   fst (queryRelevantContent this queryText limit) = []"
  by (auto simp: queryRelevantContent_def initialize_def Let_def)

theorem query_empty_store_witness:
  "\<not> initialized new_VectorStore \<and>
   fst (queryRelevantContent new_VectorStore ''alpha'' 5) = [] \<and>
   documents (snd (initialize new_VectorStore)) = [] \<and>
   fst (queryRelevantContent (snd (initialize new_VectorStore)) ''alpha'' 5) = []"
proof -
  have a: "\<not> initialized new_VectorStore" by (simp add: new_VectorStore_def)
  have b: "documents (snd (initialize new_VectorStore)) = []" by (simp add: initialize_def)
  from a b query_empty_store [of new_VectorStore "''alpha''" 5]
    query_empty_store [of "snd (initialize new_VectorStore)" "''alpha''" 5]
  show ?thesis by simp
qed

text \<open>
  C10. "A store that is not initialized holds no documents" is true of the new instance
  and is preserved by \<open>initialize\<close>, \<open>addDocuments\<close>, \<open>queryRelevantContent\<close> and
  \<open>close\<close>; so it holds in every state the store can reach.
\<close>

theorem store_invariant_preserved:
  "store_invariant new_VectorStore \<and>
   (store_invariant this \<longrightarrow>
      store_invariant (snd (initialize this)) \<and>
      store_invariant (snd (addDocuments this docs)) \<and>
      store_invariant (snd (queryRelevantContent this queryText limit)) \<and>
      store_invariant (close this)) \<and>
   (reachable this \<longrightarrow> store_invariant this)"
  by (simp add: reachable_invariant)
     (simp add: store_invariant_def new_VectorStore_def initialize_def addDocuments_def
        queryRelevantContent_def close_def Let_def)

theorem store_invariant_preserved_witness:
  "store_invariant new_VectorStore \<and>
   store_invariant (snd (initialize new_VectorStore)) \<and>
   store_invariant (snd (addDocuments new_VectorStore [])) \<and>
   store_invariant (snd (queryRelevantContent new_VectorStore ''alpha'' 5)) \<and>
   store_invariant (close new_VectorStore) \<and>
   reachable new_VectorStore"
  using store_invariant_preserved [of new_VectorStore "[]" "''alpha''" 5] reach_new
  by simp

section \<open>Sorting, filtering and the deduplication loop\<close>

lemma insert_sorted_set: "set (insert_sorted cmp x ys) = insert x (set ys)"
  by (induction ys) auto

lemma insert_sorted_length: "length (insert_sorted cmp x ys) = Suc (length ys)"
  by (induction ys) auto

lemma foldl_insert_sorted_set:
  "set (foldl (\<lambda>placed x. insert_sorted cmp x placed) acc xs) = set acc \<union> set xs"
  by (induction xs arbitrary: acc) (auto simp: insert_sorted_set)

lemma foldl_insert_sorted_length:
  "length (foldl (\<lambda>placed x. insert_sorted cmp x placed) acc xs) = length acc + length xs"
  by (induction xs arbitrary: acc) (auto simp: insert_sorted_length)

lemma js_sort_set: "set (js_sort cmp xs) = set xs"
  by (simp add: js_sort_def foldl_insert_sorted_set)

lemma js_sort_length: "length (js_sort cmp xs) = length xs"
  by (simp add: js_sort_def foldl_insert_sorted_length)

text \<open>An array that is one run is left as it is.\<close>

lemma insert_sorted_behind:
  "ys = [] \<or> sort_compare cmp (hd ys) x \<le> 0 \<Longrightarrow> insert_sorted cmp x ys = x # ys"
  by (cases ys) auto

lemma foldl_insert_sorted_run:
  "successively (\<lambda>a b. sort_compare cmp a b \<le> 0) (pre @ xs) \<Longrightarrow>
   foldl (\<lambda>placed x. insert_sorted cmp x placed) (rev pre) xs = rev (pre @ xs)"
proof (induction xs arbitrary: pre)
  case Nil
  then show ?case by simp
next
  case (Cons x xs)
  have "rev pre = [] \<or> sort_compare cmp (hd (rev pre)) x \<le> 0"
  proof (cases pre rule: rev_cases)
    case Nil
    then show ?thesis by simp
  next
    case (snoc ps p)
    with Cons.prems show ?thesis by (simp add: successively_append_iff)
  qed
  then have step: "insert_sorted cmp x (rev pre) = rev (pre @ [x])"
    by (simp add: insert_sorted_behind)
  from Cons.prems have "successively (\<lambda>a b. sort_compare cmp a b \<le> 0) ((pre @ [x]) @ xs)"
    by simp
  from Cons.IH [OF this] show ?case by (simp add: step)
qed

lemma js_sort_run:
  "successively (\<lambda>a b. sort_compare cmp a b \<le> 0) xs \<Longrightarrow> js_sort cmp xs = xs"
  using foldl_insert_sorted_run [of cmp "[]" xs] by (simp add: js_sort_def)

lemma num_ge_trans: "num_ge a b \<Longrightarrow> num_ge b c \<Longrightarrow> num_ge a c"
  by (cases a; cases b; cases c) auto

lemma insert_sorted_ascending:
  assumes "k x \<noteq> NaN" "\<forall>y\<in>set ys. k y \<noteq> NaN"
    and "sorted_wrt (\<lambda>a b. num_ge (k b) (k a)) ys"
  shows "sorted_wrt (\<lambda>a b. num_ge (k b) (k a)) (insert_sorted (\<lambda>a b. num_sub (k b) (k a)) x ys)"
  using assms
proof (induction ys)
  case Nil
  then show ?case by simp
next
  case (Cons y ys)
  from Cons.prems obtain vx vy where v: "k x = Num vx" "k y = Num vy"
    by (cases "k x"; cases "k y") auto
  show ?case
  proof (cases "vx > vy")
    case True
    then have step: "insert_sorted (\<lambda>a b. num_sub (k b) (k a)) x (y # ys)
        = y # insert_sorted (\<lambda>a b. num_sub (k b) (k a)) x ys"
      by (simp add: sort_compare_def v)
    have "sorted_wrt (\<lambda>a b. num_ge (k b) (k a)) (insert_sorted (\<lambda>a b. num_sub (k b) (k a)) x ys)"
      using Cons by simp
    moreover have "\<forall>z\<in>set (insert_sorted (\<lambda>a b. num_sub (k b) (k a)) x ys). num_ge (k z) (k y)"
      using Cons.prems True by (auto simp: insert_sorted_set v)
    ultimately show ?thesis unfolding step by simp
  next
    case False
    then have step: "insert_sorted (\<lambda>a b. num_sub (k b) (k a)) x (y # ys) = x # y # ys"
      by (simp add: sort_compare_def v)
    have xy: "num_ge (k y) (k x)" using False by (simp add: v)
    have "\<forall>z\<in>set ys. num_ge (k z) (k x)"
      using Cons.prems(3) xy by (auto intro: num_ge_trans)
    with xy Cons.prems(3) show ?thesis unfolding step by simp
  qed
qed

lemma foldl_insert_sorted_ascending:
  assumes "\<forall>y\<in>set acc \<union> set xs. k y \<noteq> NaN"
    and "sorted_wrt (\<lambda>a b. num_ge (k b) (k a)) acc"
  shows "sorted_wrt (\<lambda>a b. num_ge (k b) (k a))
           (foldl (\<lambda>placed x. insert_sorted (\<lambda>a b. num_sub (k b) (k a)) x placed) acc xs)"
  using assms
proof (induction xs arbitrary: acc)
  case Nil
  then show ?case by simp
next
  case (Cons x xs)
  have "sorted_wrt (\<lambda>a b. num_ge (k b) (k a)) (insert_sorted (\<lambda>a b. num_sub (k b) (k a)) x acc)"
    using Cons.prems by (intro insert_sorted_ascending) auto
  moreover have "\<forall>y\<in>set (insert_sorted (\<lambda>a b. num_sub (k b) (k a)) x acc) \<union> set xs. k y \<noteq> NaN"
    using Cons.prems(1) by (auto simp: insert_sorted_set)
  ultimately show ?case using Cons.IH by simp
qed

lemma js_sort_descending:
  assumes "\<forall>y\<in>set xs. k y \<noteq> NaN"
  shows "sorted_wrt (\<lambda>a b. num_ge (k a) (k b)) (js_sort (\<lambda>a b. num_sub (k b) (k a)) xs)"
  using foldl_insert_sorted_ascending [of "[]" xs k] assms
  by (simp add: js_sort_def sorted_wrt_rev)

lemma keep_result_cases:
  "keep_result limit (u, s) x = (u, s) \<or> (\<exists>s'. keep_result limit (u, s) x = (u @ [x], s'))"
  by (auto simp: keep_result_def split: option.splits)

lemma foldl_keep_result_set:
  "set (fst (foldl (keep_result limit) (u, s) xs)) \<subseteq> set u \<union> set xs"
proof (induction xs arbitrary: u s)
  case Nil
  then show ?case by simp
next
  case (Cons x xs)
  from keep_result_cases [of limit u s x] show ?case
  proof
    assume "keep_result limit (u, s) x = (u, s)"
    then show ?thesis using Cons.IH [of u s] by auto
  next
    assume "\<exists>s'. keep_result limit (u, s) x = (u @ [x], s')"
    then obtain s' where "keep_result limit (u, s) x = (u @ [x], s')" ..
    then show ?thesis using Cons.IH [of "u @ [x]" s'] by auto
  qed
qed

lemma foldl_keep_result_sorted:
  "sorted_wrt P (u @ xs) \<Longrightarrow> sorted_wrt P (fst (foldl (keep_result limit) (u, s) xs))"
proof (induction xs arbitrary: u s)
  case Nil
  then show ?case by simp
next
  case (Cons x xs)
  from keep_result_cases [of limit u s x] show ?case
  proof
    assume e: "keep_result limit (u, s) x = (u, s)"
    from Cons.prems have "sorted_wrt P (u @ xs)" by (auto simp: sorted_wrt_append)
    then show ?thesis using Cons.IH [of u s] e by simp
  next
    assume "\<exists>s'. keep_result limit (u, s) x = (u @ [x], s')"
    then obtain s' where e: "keep_result limit (u, s) x = (u @ [x], s')" ..
    from Cons.prems have "sorted_wrt P ((u @ [x]) @ xs)" by simp
    then show ?thesis using Cons.IH [of "u @ [x]" s'] e by simp
  qed
qed

lemma slice0_set: "set (slice0 xs n) \<subseteq> set xs"
  by (auto simp: slice0_def dest: in_set_takeD)

lemma slice0_sorted: "sorted_wrt P xs \<Longrightarrow> sorted_wrt P (slice0 xs n)"
  by (simp add: slice0_def)

lemma slice0_length: "0 \<le> n \<Longrightarrow> int (length (slice0 xs n)) \<le> n"
  by (simp add: slice0_def)

lemma ranked_results_subset:
  "set (ranked_results this q limit)
   \<subseteq> {r \<in> score_chunk (createEmbedding this q) ` set (documents this).
        num_gt (score r) (Num SIMILARITY_THRESHOLD)}"
proof -
  let ?sim = "map (score_chunk (createEmbedding this q)) (documents this)"
  let ?sorted = "js_sort (\<lambda>a b. num_sub (score b) (score a)) ?sim"
  let ?filtered = "filter (\<lambda>item. num_gt (score item) (Num SIMILARITY_THRESHOLD)) ?sorted"
  have "set (ranked_results this q limit) \<subseteq> set (fst (foldl (keep_result limit) ([], []) ?filtered))"
    by (simp add: ranked_results_def Let_def slice0_set)
  also have "\<dots> \<subseteq> set ?filtered"
    using foldl_keep_result_set [of limit "[]" "[]" ?filtered] by simp
  also have "\<dots> \<subseteq> {r \<in> score_chunk (createEmbedding this q) ` set (documents this).
        num_gt (score r) (Num SIMILARITY_THRESHOLD)}"
    by (auto simp: js_sort_set)
  finally show ?thesis .
qed

lemma query_results_cases:
  "fst (queryRelevantContent this q limit) = [] \<or>
   (initialized this \<and> fst (queryRelevantContent this q limit) = ranked_results this q limit)"
  by (auto simp: queryRelevantContent_def initialize_def Let_def)

lemma ranked_results_sorted:
  assumes "\<forall>d\<in>set (documents this). cosineSimilarity (createEmbedding this q) (embedding d) \<noteq> NaN"
  shows "sorted_wrt (\<lambda>a b. num_ge (score a) (score b)) (ranked_results this q limit)"
proof -
  let ?sim = "map (score_chunk (createEmbedding this q)) (documents this)"
  let ?sorted = "js_sort (\<lambda>a b. num_sub (score b) (score a)) ?sim"
  let ?filtered = "filter (\<lambda>item. num_gt (score item) (Num SIMILARITY_THRESHOLD)) ?sorted"
  from assms have "\<forall>y\<in>set ?sim. score y \<noteq> NaN" by (auto simp: score_chunk_def)
  then have "sorted_wrt (\<lambda>a b. num_ge (score a) (score b)) ?sorted"
    by (rule js_sort_descending)
  then have "sorted_wrt (\<lambda>a b. num_ge (score a) (score b)) ([] @ ?filtered)"
    by (simp add: sorted_wrt_filter)
  then have "sorted_wrt (\<lambda>a b. num_ge (score a) (score b))
      (fst (foldl (keep_result limit) ([], []) ?filtered))"
    by (rule foldl_keep_result_sorted)
  then show ?thesis by (simp add: ranked_results_def Let_def slice0_sorted)
qed

lemma insert_sorted_distinct:
  "distinct (map f (insert_sorted cmp x ys)) = (f x \<notin> f ` set ys \<and> distinct (map f ys))"
  by (induction ys) (auto simp: insert_sorted_set)

lemma foldl_insert_sorted_distinct:
  "distinct (map f (foldl (\<lambda>placed x. insert_sorted cmp x placed) acc xs))
   = distinct (map f (acc @ xs))"
proof (induction xs arbitrary: acc)
  case Nil
  then show ?case by simp
next
  case (Cons x xs)
  show ?case
    unfolding foldl_Cons Cons.IH
    by (auto simp: insert_sorted_distinct insert_sorted_set)
qed

lemma js_sort_distinct: "distinct (map f (js_sort cmp xs)) = distinct (map f xs)"
  by (simp add: js_sort_def distinct_rev rev_map [symmetric] foldl_insert_sorted_distinct)

lemma foldl_keep_result_distinct:
  assumes "distinct (map (\<lambda>r. url (sc_metadata r)) xs)"
    and "\<forall>x\<in>set xs. url (sc_metadata x) \<notin> set s"
  shows "fst (foldl (keep_result limit) (u, s) xs) = u @ xs"
  using assms
proof (induction xs arbitrary: u s)
  case Nil
  then show ?case by simp
next
  case (Cons x xs)
  from Cons.prems have k: "keep_result limit (u, s) x = (u @ [x], s @ [url (sc_metadata x)])"
    by (simp add: keep_result_def)
  from Cons.prems have "\<forall>y\<in>set xs. url (sc_metadata y) \<notin> set (s @ [url (sc_metadata x)])"
    by (auto simp: image_iff)
  with Cons.prems Cons.IH [of "s @ [url (sc_metadata x)]" "u @ [x]"] k
  show ?case by simp
qed

lemma ranked_results_all:
  assumes "int (length (documents this)) \<le> limit"
    and "distinct (map (\<lambda>d. url (metadata d)) (documents this))"
    and "\<forall>d\<in>set (documents this).
           num_gt (cosineSimilarity (createEmbedding this q) (embedding d)) (Num SIMILARITY_THRESHOLD)"
  shows "ranked_results this q limit
         = js_sort (\<lambda>a b. num_sub (score b) (score a))
             (map (score_chunk (createEmbedding this q)) (documents this))"
proof -
  let ?sim = "map (score_chunk (createEmbedding this q)) (documents this)"
  let ?sorted = "js_sort (\<lambda>a b. num_sub (score b) (score a)) ?sim"
  from assms(3) have "\<forall>r\<in>set ?sorted. num_gt (score r) (Num SIMILARITY_THRESHOLD)"
    by (auto simp: js_sort_set score_chunk_def)
  then have f: "filter (\<lambda>item. num_gt (score item) (Num SIMILARITY_THRESHOLD)) ?sorted = ?sorted"
    by simp
  have m: "map (\<lambda>r. url (sc_metadata r)) ?sim = map (\<lambda>d. url (metadata d)) (documents this)"
    by (simp add: score_chunk_def comp_def)
  have "distinct (map (\<lambda>r. url (sc_metadata r)) ?sim)"
    unfolding m using assms(2) .
  then have "distinct (map (\<lambda>r. url (sc_metadata r)) ?sorted)"
    by (simp only: js_sort_distinct)
  then have d: "fst (foldl (keep_result limit) ([], []) ?sorted) = ?sorted"
    using foldl_keep_result_distinct [of ?sorted "[]" limit "[]"] by simp
  have "length ?sorted = length (documents this)" by (simp add: js_sort_length)
  with assms(1) have "slice0 ?sorted limit = ?sorted" by (simp add: slice0_def)
  with f d show ?thesis by (simp add: ranked_results_def Let_def)
qed

lemma query_initialized:
  "initialized this \<Longrightarrow>
   fst (queryRelevantContent this q limit) = (if documents this = [] then [] else ranked_results this q limit)"
  by (simp add: queryRelevantContent_def)

lemma ranked_results_Nil: "documents this = [] \<Longrightarrow> ranked_results this q limit = []"
  by (simp add: ranked_results_def js_sort_def slice0_def)


section \<open>The dedup policy\<close>

lemma snoc_decompose:
  "ys @ y # zs = u @ [x] \<longleftrightarrow>
   (zs = [] \<and> ys = u \<and> y = x) \<or> (\<exists>zs'. zs = zs' @ [x] \<and> u = ys @ y # zs')"
  by (cases zs rule: rev_cases) auto

lemma first_overlap_below_snoc:
  assumes "first_overlap_below u"
    and "(\<exists>y\<in>set u. same_url x y) \<longrightarrow>
         (\<exists>f. find (same_url x) u = Some f \<and> contentSimilarity (sc_content f) (sc_content x) < 0.5)"
  shows "first_overlap_below (u @ [x])"
  unfolding first_overlap_below_def
proof (intro allI impI)
  fix ys y zs
  assume a: "u @ [x] = ys @ y # zs \<and> (\<exists>w\<in>set ys. same_url y w)"
  then have "ys @ y # zs = u @ [x]" by simp
  then consider "zs = []" "ys = u" "y = x" | zs' where "zs = zs' @ [x]" "u = ys @ y # zs'"
    unfolding snoc_decompose by blast
  then show "\<exists>f. find (same_url y) ys = Some f \<and>
      contentSimilarity (sc_content f) (sc_content y) < 0.5"
  proof cases
    case 1
    with a assms(2) show ?thesis by simp
  next
    case 2
    with a assms(1) show ?thesis unfolding first_overlap_below_def by blast
  qed
qed

lemma first_overlap_below_take:
  assumes "first_overlap_below u"
  shows "first_overlap_below (take n u)"
  unfolding first_overlap_below_def
proof (intro allI impI)
  fix ys y zs
  assume a: "take n u = ys @ y # zs \<and> (\<exists>w\<in>set ys. same_url y w)"
  then have "u = ys @ y # (zs @ drop n u)"
    by (metis append_Cons append_assoc append_take_drop_id)
  with a assms show "\<exists>f. find (same_url y) ys = Some f \<and>
      contentSimilarity (sc_content f) (sc_content y) < 0.5"
    unfolding first_overlap_below_def by blast
qed

lemma keep_result_invariant:
  assumes "first_overlap_below u" "set s = (\<lambda>r. url (sc_metadata r)) ` set u"
    and "keep_result limit (u, s) x = (u', s')"
  shows "first_overlap_below u' \<and> set s' = (\<lambda>r. url (sc_metadata r)) ` set u'"
proof (cases "url (sc_metadata x) \<notin> set s")
  case True
  then have new: "\<not> (\<exists>y\<in>set u. same_url x y)"
    unfolding assms(2) same_url_def image_iff by metis
  from True assms(3) have u': "u' = u @ [x]" "s' = s @ [url (sc_metadata x)]"
    by (auto simp: keep_result_def)
  from first_overlap_below_snoc [OF assms(1), of x] new
  have "first_overlap_below (u @ [x])" by blast
  with u' assms(2) show ?thesis by auto
next
  case False
  then have seen: "url (sc_metadata x) \<in> (\<lambda>r. url (sc_metadata r)) ` set u"
    using assms(2) by simp
  let ?found = "find (\<lambda>r. url (sc_metadata r) = url (sc_metadata x)) u"
  have same: "same_url x = (\<lambda>r. url (sc_metadata r) = url (sc_metadata x))"
    by (auto simp: same_url_def)
  have k: "keep_result limit (u, s) x =
      (if int (length u) < limit
       then (case ?found of
               Some e \<Rightarrow> if contentSimilarity (sc_content e) (sc_content x) < 0.5
                         then (u @ [x], s) else (u, s)
             | None \<Rightarrow> (u, s))
       else (u, s))"
    using False by (simp add: keep_result_def)
  show ?thesis
  proof (cases "int (length u) < limit")
    case no_room: False
    with k assms show ?thesis by simp
  next
    case room: True
    show ?thesis
    proof (cases ?found)
      case None
      with k room assms show ?thesis by simp
    next
      case (Some e)
      show ?thesis
      proof (cases "contentSimilarity (sc_content e) (sc_content x) < 0.5")
        case far: True
        with k room Some assms(3) have u': "u' = u @ [x]" "s' = s" by simp_all
        from Some far same first_overlap_below_snoc [OF assms(1), of x]
        have "first_overlap_below (u @ [x])" by simp
        with u' assms(2) seen show ?thesis by auto
      next
        case near: False
        with k room Some assms show ?thesis by simp
      qed
    qed
  qed
qed

lemma foldl_keep_result_invariant:
  assumes "first_overlap_below u" "set s = (\<lambda>r. url (sc_metadata r)) ` set u"
  shows "first_overlap_below (fst (foldl (keep_result limit) (u, s) xs))"
  using assms
proof (induction xs arbitrary: u s)
  case Nil
  then show ?case by simp
next
  case (Cons x xs)
  obtain u' s' where k: "keep_result limit (u, s) x = (u', s')" by (cases "keep_result limit (u, s) x")
  from keep_result_invariant [OF Cons.prems k] Cons.IH [of u' s'] k
  show ?case by simp
qed

lemma first_overlap_below_Nil: "first_overlap_below []"
  by (simp add: first_overlap_below_def)

lemma ranked_results_first_overlap: "first_overlap_below (ranked_results this q limit)"
proof -
  have "first_overlap_below (fst (foldl (keep_result limit) ([], []) xs))" for xs
    by (rule foldl_keep_result_invariant) (simp_all add: first_overlap_below_Nil)
  then show ?thesis
    by (simp add: ranked_results_def Let_def slice0_def first_overlap_below_take)
qed


section \<open>The embedding in closed form\<close>

lemma fill_prefix:
  "length fs \<le> m \<Longrightarrow> k \<le> length fs \<Longrightarrow>
   foldl (\<lambda>e (i, f). e[i := g f]) (map g (take k fs) @ replicate (m - k) z) (zip [k ..< length fs] (drop k fs))
   = map g fs @ replicate (m - length fs) z"
proof (induction "length fs - k" arbitrary: k)
  case 0
  then show ?case by simp
next
  case (Suc d)
  then have k: "k < length fs" by simp
  then have kins: "[k ..< length fs] = k # [Suc k ..< length fs]"
    by (simp add: upt_conv_Cons)
  have dr: "drop k fs = fs ! k # drop (Suc k) fs"
    using k by (simp add: Cons_nth_drop_Suc)
  have mk: "m - k = Suc (m - Suc k)" using k Suc.prems by simp
  have upd: "(map g (take k fs) @ replicate (m - k) z)[k := g (fs ! k)]
        = map g (take (Suc k) fs) @ replicate (m - Suc k) z"
    using k by (simp add: mk list_update_append take_Suc_conv_app_nth)
  have "d = length fs - Suc k" using Suc.hyps(2) by simp
  from Suc.hyps(1) [OF this Suc.prems(1)] k
  show ?case by (simp add: kins dr upd)
qed

lemma fill_all:
  "length fs \<le> m \<Longrightarrow>
   foldl (\<lambda>e (i, f). e[i := g f]) (replicate m z) (zip [0 ..< length fs] fs)
   = map g fs @ replicate (m - length fs) z"
  using fill_prefix [where fs = fs and m = m and g = g and k = 0 and z = z] by simp

lemma embed_eq:
  "embed stops text
   = top_weights stops text @ replicate (384 - length (top_weights stops text)) (Num 0)"
  unfolding embed_def top_weights_def Let_def
  by (subst fill_all) simp_all

lemma length_top_weights: "length (top_weights stops text) \<le> 384"
  by (simp add: top_weights_def Let_def)

lemma length_embed: "length (embed stops text) = 384"
  using length_top_weights [of stops "text"] by (simp add: embed_eq)

lemma stop_word_length: "w \<in> set STOP_WORDS \<Longrightarrow> length w \<le> 4"
  by (auto simp: STOP_WORDS_def)

lemma inherited_text_length: "length key > 11 \<Longrightarrow> inherited_text key = None"
  by (auto simp: inherited_text_def)

lemma object_entries_single: "object_entries [e] = [e]"
  by (simp add: object_entries_def)

lemma js_sort_single: "js_sort cmp [e] = [e]"
  by (simp add: js_sort_def)

lemma top_weights_single_word:
  assumes "split_spaces (cleanText txt) = [w]" "length w > 2" "w \<notin> set stops"
    and "inherited_text w = None"
  shows "top_weights stops txt = [Num 1]"
proof -
  from assms(4) have np: "w \<noteq> ''__proto__''"
    by (auto simp: inherited_text_def split: if_splits)
  have uni: "add_unigram stops [] w = [(w, JNum (Num 1))]"
    using assms np
    by (simp add: add_unigram_def passes_filter_def set_property_def get_or_zero_def)
  have pw: "position_weight [w] (w, JNum (Num 1)) = (w, JNum (Num 1))"
    by (simp add: position_weight_def)
  show ?thesis
    unfolding top_weights_def Let_def assms(1)
    by (simp add: uni object_entries_single pw from_entries_def js_sort_single weight_of_def)
qed

lemma top_weights_inherited_word:
  assumes "split_spaces (cleanText txt) = [w]" "length w > 2" "w \<notin> set stops"
    and "inherited_text w = Some s" "w \<noteq> ''__proto__''"
  shows "top_weights stops txt = [NaN]"
proof -
  have uni: "add_unigram stops [] w = [(w, JStr (s @ ''1''))]"
    using assms
    by (simp add: add_unigram_def passes_filter_def set_property_def get_or_zero_def)
  have pw: "position_weight [w] (w, JStr (s @ ''1'')) = (w, JNum NaN)"
    by (simp add: position_weight_def)
  show ?thesis
    unfolding top_weights_def Let_def assms(1)
    by (simp add: uni object_entries_single pw from_entries_def js_sort_single weight_of_def)
qed

lemma collapse_spaces_run:
  "\<not> is_space c \<Longrightarrow> collapse_spaces b (replicate n c) = replicate n c"
  by (induction n arbitrary: b) auto

lemma split_fields_run:
  "\<not> is_space c \<Longrightarrow> split_fields cur b (replicate n c) = [rev cur @ replicate n c]"
proof (induction n arbitrary: cur b)
  case 0
  then show ?case by simp
next
  case (Suc n)
  then show ?case by (simp add: replicate_app_Cons_same)
qed

lemma match_scan_run:
  "\<not> is_terminator c \<Longrightarrow> match_scan body [] (replicate n c) = []"
  by (induction n arbitrary: body) auto

lemma split_blank_run:
  "c \<noteq> CHR 0x0A \<Longrightarrow> split_blank cur 0 (replicate n c) = [rev cur @ replicate n c]"
proof (induction n arbitrary: cur)
  case 0
  then show ?case by simp
next
  case (Suc n)
  then show ?case by (simp add: replicate_app_Cons_same)
qed

lemma trim_run: "\<not> is_space c \<Longrightarrow> trim (replicate n c) = replicate n c"
  by (simp add: trim_def)

lemma words_run:
  assumes "is_word_char (lower_char c)" "\<not> is_space (lower_char c)"
  shows "split_spaces (cleanText (replicate n c)) = [replicate n (lower_char c)]"
  using assms
  by (simp add: cleanText_def toLowerCase_def collapse_spaces_run trim_run split_spaces_def
      split_fields_run)

lemma chunk_content_run:
  assumes "\<not> is_terminator c" "\<not> is_space c" "c \<noteq> CHR 0x0A" "50 < n" "n \<le> 500"
  shows "chunk_content (replicate n c) = [replicate n c]"
  using assms
  by (simp add: chunk_content_def fallback_chunks_def match_sentences_def match_scan_run
      paragraph_chunks_def split_paragraphs_def split_blank_run trim_run)

lemma word_set_run:
  assumes "is_word_char (lower_char c)" "\<not> is_space (lower_char c)" "2 < n"
  shows "word_set (replicate n c) = [replicate n (lower_char c)]"
  using assms by (simp add: word_set_def words_run)

lemma char_facts:
  "lower_char (CHR ''a'') = CHR ''a''" "lower_char (CHR ''b'') = CHR ''b''"
  "lower_char (CHR ''B'') = CHR ''b''"
  "is_word_char (CHR ''a'')" "is_word_char (CHR ''b'')"
  "\<not> is_space (CHR ''a'')" "\<not> is_space (CHR ''b'')" "\<not> is_space (CHR ''B'')"
  by code_simp+

lemma words_alpha: "split_spaces (cleanText ''alpha'') = [''alpha'']"
  by code_simp

lemma words_constructor: "split_spaces (cleanText ''constructor'') = [''constructor'']"
  by code_simp

lemma alpha_no_stop_word: "''alpha'' \<notin> set STOP_WORDS"
  using stop_word_length [of "''alpha''"] by auto

lemma constructor_no_stop_word: "''constructor'' \<notin> set STOP_WORDS"
  using stop_word_length [of "''constructor''"] by auto

lemma tw_alpha: "top_weights STOP_WORDS ''alpha'' = [Num 1]"
  by (rule top_weights_single_word [OF words_alpha _ alpha_no_stop_word])
     (simp_all add: inherited_text_def)

lemma tw_constructor: "top_weights STOP_WORDS ''constructor'' = [NaN]"
  by (rule top_weights_inherited_word [OF words_constructor _ constructor_no_stop_word])
     (simp_all add: inherited_text_def)

lemma tw_run:
  assumes "is_word_char (lower_char c)" "\<not> is_space (lower_char c)"
  shows "top_weights STOP_WORDS (replicate 55 c) = [Num 1]"
proof (rule top_weights_single_word [OF words_run [OF assms]])
  show "replicate 55 (lower_char c) \<notin> set STOP_WORDS"
    using stop_word_length [of "replicate 55 (lower_char c)"] by auto
qed (simp_all add: inherited_text_length)

section \<open>The example store\<close>

lemma embed_unit:
  "top_weights stops txt = [Num 1] \<Longrightarrow> embed stops txt = unit_vector"
  by (simp add: embed_eq unit_vector_def)

lemma decimal_digits:
  "decimal 0 = ''0''" "decimal (Suc 0) = ''1''" "decimal (Suc (Suc 0)) = ''2''"
  by code_simp+

lemma terminator_facts:
  "\<not> is_terminator (CHR ''a'')" "\<not> is_terminator (CHR ''b'')" "\<not> is_terminator (CHR ''B'')"
  by (simp_all add: is_terminator_def)

lemma document_entries_run:
  assumes "stopWords this = STOP_WORDS" "c \<in> {CHR ''a'', CHR ''b'', CHR ''B''}"
  shows "document_entries this i (run_document u c)
         = [run_entry (''doc'' @ decimal i @ ''_chunk0'') u c]"
proof -
  from assms(2) have cc: "chunk_content (replicate 55 c) = [replicate 55 c]"
    by (auto intro!: chunk_content_run simp: terminator_facts char_facts)
  from assms(2) have "top_weights STOP_WORDS (replicate 55 c) = [Num 1]"
    by (auto intro!: tw_run simp: char_facts)
  then have em: "embed STOP_WORDS (replicate 55 c) = unit_vector" by (rule embed_unit)
  show ?thesis
    by (simp add: document_entries_def run_document_def cc add_title_def run_entry_def
        createEmbedding_def assms(1) em decimal_digits)
qed

lemma three_runs_eq:
  "three_runs u1 u2 u3 =
     \<lparr>documents = [run_entry ''doc0_chunk0'' u1 (CHR ''a''), run_entry ''doc1_chunk0'' u2 (CHR ''b''),
                   run_entry ''doc2_chunk0'' u3 (CHR ''B'')],
      initialized = True, stopWords = STOP_WORDS\<rparr>"
proof -
  have sw: "stopWords \<lparr>documents = [], initialized = True, stopWords = STOP_WORDS\<rparr> = STOP_WORDS"
    by simp
  note de = document_entries_run [OF sw]
  show ?thesis
    unfolding three_runs_def addDocuments_def initialize_def new_VectorStore_def
    by (simp add: de decimal_digits)
qed

lemma accumulate_zeros:
  "foldl accumulate (Num d, Num p, Num q) (replicate n (Num 0, Num 0)) = (Num d, Num p, Num q)"
  by (induction n) (simp_all add: accumulate_def)

lemma cosine_unit: "cosineSimilarity unit_vector unit_vector = Num 1"
proof -
  have acc: "foldl accumulate (Num 0, Num 0, Num 0) (zip unit_vector unit_vector) = (Num 1, Num 1, Num 1)"
    by (simp add: unit_vector_def accumulate_def accumulate_zeros)
  have nz: "nonZero unit_vector = 1"
    by (simp add: nonZero_def unit_vector_def)
  show ?thesis
    unfolding cosineSimilarity_def acc by (simp add: nz)
qed

lemma overlap_runs:
  "contentSimilarity (replicate 55 (CHR ''a'')) (replicate 55 (CHR ''b'')) = 0"
  "contentSimilarity (replicate 55 (CHR ''a'')) (replicate 55 (CHR ''B'')) = 0"
  "contentSimilarity (replicate 55 (CHR ''b'')) (replicate 55 (CHR ''B'')) = 1"
  by (simp_all add: contentSimilarity_def word_set_run char_facts)

lemma scores_three_runs:
  "map (score_chunk (createEmbedding (three_runs u1 u2 u3) ''alpha'')) (documents (three_runs u1 u2 u3))
   = [run_scored u1 (CHR ''a''), run_scored u2 (CHR ''b''), run_scored u3 (CHR ''B'')]"
proof -
  have "createEmbedding (three_runs u1 u2 u3) ''alpha'' = unit_vector"
    by (simp add: createEmbedding_def three_runs_eq embed_unit tw_alpha)
  then show ?thesis
    by (simp add: three_runs_eq score_chunk_def run_entry_def run_scored_def cosine_unit)
qed

lemma sorted_three_runs:
  "filter (\<lambda>item. num_gt (score item) (Num SIMILARITY_THRESHOLD))
     (js_sort (\<lambda>a b. num_sub (score b) (score a))
        [run_scored u1 (CHR ''a''), run_scored u2 (CHR ''b''), run_scored u3 (CHR ''B'')])
   = [run_scored u1 (CHR ''a''), run_scored u2 (CHR ''b''), run_scored u3 (CHR ''B'')]"
  by (simp add: js_sort_def sort_compare_def run_scored_def SIMILARITY_THRESHOLD_def)

lemma ranked_same_url:
  "ranked_results (three_runs ''u'' ''u'' ''u'') ''alpha'' 5
   = [run_scored ''u'' (CHR ''a''), run_scored ''u'' (CHR ''b''), run_scored ''u'' (CHR ''B'')]"
  unfolding ranked_results_def Let_def scores_three_runs sorted_three_runs
  by (simp add: keep_result_def run_scored_def overlap_runs slice0_def)

lemma ranked_distinct_urls:
  "ranked_results (three_runs ''u1'' ''u2'' ''u3'') ''alpha'' 5
   = [run_scored ''u1'' (CHR ''a''), run_scored ''u2'' (CHR ''b''), run_scored ''u3'' (CHR ''B'')]"
  unfolding ranked_results_def Let_def scores_three_runs sorted_three_runs
  by (simp add: keep_result_def run_scored_def slice0_def)

lemma query_three_runs:
  "fst (queryRelevantContent (three_runs u1 u2 u3) q limit) = ranked_results (three_runs u1 u2 u3) q limit"
  by (simp add: queryRelevantContent_def three_runs_eq)

lemma three_runs_scores:
  "d \<in> set (documents (three_runs u1 u2 u3)) \<Longrightarrow>
   cosineSimilarity (createEmbedding (three_runs u1 u2 u3) ''alpha'') (embedding d) = Num 1"
  using scores_three_runs [of u1 u2 u3]
  by (auto simp: three_runs_eq score_chunk_def run_scored_def)

lemma find_in_prefix:
  "find P ys = Some f \<Longrightarrow> find P (ys @ zs) = Some f"
  by (induction ys) (auto split: if_splits)

section \<open>A store with a score that is no number\<close>

text \<open>
  The store holds three chunks from three URLs, in this order: one that scores between
  0.275 and 1 against the query \<open>alpha\<close>, one with the word \<open>constructor\<close>, whose
  embedding starts with NaN and whose score is NaN, and one that scores 1. Every
  comparison with the NaN score gives 0, the first and the last chunk are never compared,
  and the array stays as it is; the filter then drops the middle chunk. The result is
  the lower score before the higher one.
\<close>

lemma chunk_content_two_words: "chunk_content two_words = [two_words]"
  by code_simp

lemma top_weights_two_words: "top_weights STOP_WORDS two_words = [Num (1/2), Num (199/400), Num (2/5)]"
  by code_simp

lemma chunk_content_constructor_text: "chunk_content constructor_text = [constructor_text]"
  by code_simp

lemma top_weights_constructor_text: "top_weights STOP_WORDS constructor_text = [NaN]"
  by code_simp

lemma embed_two_words: "embed STOP_WORDS two_words = two_words_vector"
  by (simp add: embed_eq top_weights_two_words two_words_vector_def)

lemma embed_constructor_text: "embed STOP_WORDS constructor_text = nan_vector"
  by (simp add: embed_eq top_weights_constructor_text nan_vector_def)

lemma mixed_store_eq:
  "mixed_store =
     \<lparr>documents =
        [\<lparr>chunk_id = ''doc0_chunk0'', content = two_words,
          metadata = \<lparr>url = ''u1'', title = []\<rparr>, embedding = two_words_vector\<rparr>,
         \<lparr>chunk_id = ''doc1_chunk0'', content = constructor_text,
          metadata = \<lparr>url = ''u2'', title = []\<rparr>, embedding = nan_vector\<rparr>,
         run_entry ''doc2_chunk0'' ''u3'' (CHR ''b'')],
      initialized = True, stopWords = STOP_WORDS\<rparr>"
proof -
  have sw: "stopWords \<lparr>documents = [], initialized = True, stopWords = STOP_WORDS\<rparr> = STOP_WORDS"
    by simp
  note de = document_entries_run [OF sw]
  have d1: "document_entries \<lparr>documents = [], initialized = True, stopWords = STOP_WORDS\<rparr> i
      (text_document u two_words)
      = [\<lparr>chunk_id = ''doc'' @ decimal i @ ''_chunk0'', content = two_words,
          metadata = \<lparr>url = u, title = []\<rparr>, embedding = two_words_vector\<rparr>]" for i u
    by (simp add: document_entries_def text_document_def chunk_content_two_words add_title_def createEmbedding_def
        embed_two_words decimal_digits)
  have d2: "document_entries \<lparr>documents = [], initialized = True, stopWords = STOP_WORDS\<rparr> i
      (text_document u constructor_text)
      = [\<lparr>chunk_id = ''doc'' @ decimal i @ ''_chunk0'', content = constructor_text,
          metadata = \<lparr>url = u, title = []\<rparr>, embedding = nan_vector\<rparr>]" for i u
    by (simp add: document_entries_def text_document_def chunk_content_constructor_text add_title_def createEmbedding_def
        embed_constructor_text decimal_digits)
  show ?thesis
    unfolding mixed_store_def addDocuments_def initialize_def new_VectorStore_def
    by (simp add: de d1 d2 decimal_digits)
qed

lemma accumulate_zeros_nan:
  "foldl accumulate (NaN, Num p, NaN) (replicate n (Num 0, Num 0)) = (NaN, Num p, NaN)"
  by (induction n) (simp_all add: accumulate_def)

lemma cosine_nan: "cosineSimilarity unit_vector nan_vector = NaN"
proof -
  have acc: "foldl accumulate (Num 0, Num 0, Num 0) (zip unit_vector nan_vector) = (NaN, Num 1, NaN)"
    by (simp add: unit_vector_def nan_vector_def accumulate_def accumulate_zeros_nan)
  show ?thesis unfolding cosineSimilarity_def acc by simp
qed

lemma two_words_score_bounds: "0.275 < two_words_score" "two_words_score < 1"
proof -
  define root where "root = sqrt (105201/160000)"
  have lower: "4/5 < root"
    unfolding root_def by (rule real_less_rsqrt) (simp add: power2_eq_square)
  have upper: "root < 1"
    unfolding root_def by (rule real_less_lsqrt) (simp_all add: power2_eq_square)
  have eq: "two_words_score = 1/2 / root * (4/5)"
    by (simp add: two_words_score_def root_def)
  show "0.275 < two_words_score"
    unfolding eq using lower upper by (simp add: field_simps)
  show "two_words_score < 1"
    unfolding eq using lower by (simp add: field_simps)
qed

lemma cosine_two_words:
  "cosineSimilarity unit_vector two_words_vector = Num two_words_score"
proof -
  have z: "zip unit_vector two_words_vector
      = [(Num 1, Num (1/2)), (Num 0, Num (199/400)), (Num 0, Num (2/5))]
        @ replicate 381 (Num 0, Num 0)"
  proof -
    have "replicate 383 (Num 0) = replicate (2 + 381) (Num 0)" by simp
    also have "\<dots> = replicate 2 (Num 0) @ replicate 381 (Num 0)" by (rule replicate_add)
    also have "replicate 2 (Num 0) = [Num 0, Num 0]" by (simp add: numeral_2_eq_2)
    finally have "replicate 383 (Num 0) = [Num 0, Num 0] @ replicate 381 (Num 0)" .
    then show ?thesis by (simp add: unit_vector_def two_words_vector_def)
  qed
  have acc: "foldl accumulate (Num 0, Num 0, Num 0) (zip unit_vector two_words_vector)
      = (Num (1/2), Num 1, Num (105201/160000))"
    unfolding z by (simp add: accumulate_def accumulate_zeros)
  have nzA: "nonZero unit_vector = 1" by (simp add: nonZero_def unit_vector_def)
  have nzB: "nonZero two_words_vector = 3" by (simp add: nonZero_def two_words_vector_def)
  define root where "root = sqrt (105201/160000)"
  have lower: "4/5 < root"
    unfolding root_def by (rule real_less_rsqrt) (simp add: power2_eq_square)
  have "cosineSimilarity unit_vector two_words_vector = Num (1/2 / root * (4/5))"
    unfolding cosineSimilarity_def acc using lower by (simp add: nzA nzB root_def)
  then show ?thesis by (simp add: two_words_score_def root_def)
qed

lemma reachable_mixed_store: "reachable mixed_store"
  unfolding mixed_store_def by (intro reach_addDocuments reach_new)

lemma ranked_mixed:
  "ranked_results mixed_store ''alpha'' 5
     = [\<lparr>sc_content = two_words, sc_metadata = \<lparr>url = ''u1'', title = []\<rparr>,
         score = Num two_words_score\<rparr>,
        run_scored ''u3'' (CHR ''b'')]"
proof -
  note v = cosine_two_words two_words_score_bounds
  let ?s1 = "\<lparr>sc_content = two_words, sc_metadata = \<lparr>url = ''u1'', title = []\<rparr>,
              score = Num two_words_score\<rparr>"
  let ?s2 = "\<lparr>sc_content = constructor_text, sc_metadata = \<lparr>url = ''u2'', title = []\<rparr>, score = NaN\<rparr>"
  let ?s3 = "run_scored ''u3'' (CHR ''b'')"
  have q: "createEmbedding mixed_store ''alpha'' = unit_vector"
    by (simp add: createEmbedding_def mixed_store_eq embed_unit tw_alpha)
  have sims: "map (score_chunk (createEmbedding mixed_store ''alpha'')) (documents mixed_store)
      = [?s1, ?s2, ?s3]"
    unfolding q
    by (simp add: mixed_store_eq score_chunk_def run_entry_def run_scored_def v(1) cosine_nan
        cosine_unit)
  have sorted: "js_sort (\<lambda>a b. num_sub (score b) (score a)) [?s1, ?s2, ?s3] = [?s1, ?s2, ?s3]"
    by (rule js_sort_run) (simp add: sort_compare_def run_scored_def)
  have filtered: "filter (\<lambda>item. num_gt (score item) (Num SIMILARITY_THRESHOLD)) [?s1, ?s2, ?s3]
      = [?s1, ?s3]"
    using v(2) by (simp add: SIMILARITY_THRESHOLD_def run_scored_def)
  show "ranked_results mixed_store ''alpha'' 5 = [?s1, ?s3]"
    unfolding ranked_results_def Let_def sims sorted filtered
    by (simp add: keep_result_def run_scored_def slice0_def)
qed

lemma query_mixed:
  "fst (queryRelevantContent mixed_store ''alpha'' 5) = ranked_results mixed_store ''alpha'' 5"
  by (simp add: queryRelevantContent_def mixed_store_eq)

section \<open>Properties of a query\<close>

text \<open>
  C1. Every chunk that \<open>queryRelevantContent\<close> returns is a stored chunk with its raw
  similarity to the query as score, and that score is a number above 0.275; a chunk whose
  similarity is at most 0.275, or NaN, is not returned.
\<close>

theorem query_results_above_threshold:
  "\<forall>r\<in>set (fst (queryRelevantContent this queryText limit)).
     (\<exists>d\<in>set (documents this).
        sc_content r = content d \<and> sc_metadata r = metadata d \<and>
        score r = cosineSimilarity (createEmbedding this queryText) (embedding d)) \<and>
     (\<exists>v. score r = Num v \<and> v > 0.275)"
proof
  fix r
  assume r: "r \<in> set (fst (queryRelevantContent this queryText limit))"
  with query_results_cases [of this queryText limit]
  have "r \<in> set (ranked_results this queryText limit)" by auto
  with ranked_results_subset [of this queryText limit]
  have img: "r \<in> score_chunk (createEmbedding this queryText) ` set (documents this)"
    and gt: "num_gt (score r) (Num SIMILARITY_THRESHOLD)" by auto
  from gt have "\<exists>v. score r = Num v \<and> v > 0.275"
    by (cases "score r") (auto simp: SIMILARITY_THRESHOLD_def)
  moreover from img have "\<exists>d\<in>set (documents this).
        sc_content r = content d \<and> sc_metadata r = metadata d \<and>
        score r = cosineSimilarity (createEmbedding this queryText) (embedding d)"
    by (auto simp: score_chunk_def)
  ultimately show "(\<exists>d\<in>set (documents this).
        sc_content r = content d \<and> sc_metadata r = metadata d \<and>
        score r = cosineSimilarity (createEmbedding this queryText) (embedding d)) \<and>
     (\<exists>v. score r = Num v \<and> v > 0.275)" by simp
qed

theorem query_results_above_threshold_witness:
  "run_scored ''u1'' (CHR ''a'')
     \<in> set (fst (queryRelevantContent (three_runs ''u1'' ''u2'' ''u3'') ''alpha'' 5)) \<and>
   (\<exists>d\<in>set (documents (three_runs ''u1'' ''u2'' ''u3'')).
      sc_content (run_scored ''u1'' (CHR ''a'')) = content d \<and>
      sc_metadata (run_scored ''u1'' (CHR ''a'')) = metadata d \<and>
      score (run_scored ''u1'' (CHR ''a''))
        = cosineSimilarity (createEmbedding (three_runs ''u1'' ''u2'' ''u3'') ''alpha'') (embedding d)) \<and>
   (\<exists>v. score (run_scored ''u1'' (CHR ''a'')) = Num v \<and> v > 0.275)"
proof -
  have m: "run_scored ''u1'' (CHR ''a'')
     \<in> set (fst (queryRelevantContent (three_runs ''u1'' ''u2'' ''u3'') ''alpha'' 5))"
    by (simp add: query_three_runs ranked_distinct_urls)
  from m query_results_above_threshold [of "three_runs ''u1'' ''u2'' ''u3''" "''alpha''" 5]
  show ?thesis by blast
qed

text \<open>
  What holds of the order and the size of a result. For a limit that is not negative the
  result has at most \<open>limit\<close> entries. When every stored chunk's score against the
  query is a number, the result is in non-increasing order of score. When the store is
  initialized and holds at most \<open>limit\<close> chunks, all from distinct URLs and all scoring
  above 0.275 (such as 3 chunks with limit 5), all of them are returned, highest score
  first.
\<close>

lemma query_sorted_and_bounded:
  "(0 \<le> limit \<longrightarrow> int (length (fst (queryRelevantContent this queryText limit))) \<le> limit) \<and>
   ((\<forall>d\<in>set (documents this).
        cosineSimilarity (createEmbedding this queryText) (embedding d) \<noteq> NaN) \<longrightarrow>
      sorted_wrt (\<lambda>a b. num_ge (score a) (score b))
        (fst (queryRelevantContent this queryText limit))) \<and>
   (initialized this \<and> int (length (documents this)) \<le> limit \<and>
    distinct (map (\<lambda>d. url (metadata d)) (documents this)) \<and>
    (\<forall>d\<in>set (documents this).
        num_gt (cosineSimilarity (createEmbedding this queryText) (embedding d)) (Num 0.275)) \<longrightarrow>
      length (fst (queryRelevantContent this queryText limit)) = length (documents this) \<and>
      set (fst (queryRelevantContent this queryText limit))
        = score_chunk (createEmbedding this queryText) ` set (documents this) \<and>
      sorted_wrt (\<lambda>a b. num_ge (score a) (score b))
        (fst (queryRelevantContent this queryText limit)))"
proof (intro conjI impI)
  assume "0 \<le> limit"
  then show "int (length (fst (queryRelevantContent this queryText limit))) \<le> limit"
    using query_results_cases [of this queryText limit]
    by (auto simp: ranked_results_def Let_def slice0_length)
next
  assume "\<forall>d\<in>set (documents this).
        cosineSimilarity (createEmbedding this queryText) (embedding d) \<noteq> NaN"
  then show "sorted_wrt (\<lambda>a b. num_ge (score a) (score b))
        (fst (queryRelevantContent this queryText limit))"
    using query_results_cases [of this queryText limit]
      ranked_results_sorted [of this queryText limit] by auto
next
  assume a: "initialized this \<and> int (length (documents this)) \<le> limit \<and>
    distinct (map (\<lambda>d. url (metadata d)) (documents this)) \<and>
    (\<forall>d\<in>set (documents this).
        num_gt (cosineSimilarity (createEmbedding this queryText) (embedding d)) (Num 0.275))"
  let ?sim = "map (score_chunk (createEmbedding this queryText)) (documents this)"
  from a have r: "ranked_results this queryText limit
      = js_sort (\<lambda>a b. num_sub (score b) (score a)) ?sim"
    by (intro ranked_results_all) (simp_all add: SIMILARITY_THRESHOLD_def)
  from a have q: "fst (queryRelevantContent this queryText limit) = ranked_results this queryText limit"
    by (simp add: query_initialized ranked_results_Nil)
  from a have "\<forall>d\<in>set (documents this).
        cosineSimilarity (createEmbedding this queryText) (embedding d) \<noteq> NaN" by auto
  then have s: "sorted_wrt (\<lambda>a b. num_ge (score a) (score b)) (ranked_results this queryText limit)"
    by (rule ranked_results_sorted)
  show "length (fst (queryRelevantContent this queryText limit)) = length (documents this)"
    unfolding q r by (simp add: js_sort_length)
  show "set (fst (queryRelevantContent this queryText limit))
        = score_chunk (createEmbedding this queryText) ` set (documents this)"
    unfolding q r by (simp add: js_sort_set)
  show "sorted_wrt (\<lambda>a b. num_ge (score a) (score b))
        (fst (queryRelevantContent this queryText limit))"
    unfolding q using s .
qed

lemma query_sorted_and_bounded_example:
  "(0::int) \<le> 5 \<and>
   initialized (three_runs ''u1'' ''u2'' ''u3'') \<and>
   length (documents (three_runs ''u1'' ''u2'' ''u3'')) = 3 \<and>
   distinct (map (\<lambda>d. url (metadata d)) (documents (three_runs ''u1'' ''u2'' ''u3''))) \<and>
   int (length (fst (queryRelevantContent (three_runs ''u1'' ''u2'' ''u3'') ''alpha'' 5))) \<le> 5 \<and>
   length (fst (queryRelevantContent (three_runs ''u1'' ''u2'' ''u3'') ''alpha'' 5)) = 3 \<and>
   set (fst (queryRelevantContent (three_runs ''u1'' ''u2'' ''u3'') ''alpha'' 5))
     = score_chunk (createEmbedding (three_runs ''u1'' ''u2'' ''u3'') ''alpha'')
         ` set (documents (three_runs ''u1'' ''u2'' ''u3'')) \<and>
   sorted_wrt (\<lambda>a b. num_ge (score a) (score b))
     (fst (queryRelevantContent (three_runs ''u1'' ''u2'' ''u3'') ''alpha'' 5))"
proof -
  let ?store = "three_runs ''u1'' ''u2'' ''u3''"
  have i: "initialized ?store" by (simp add: three_runs_eq)
  have l: "length (documents ?store) = 3" by (simp add: three_runs_eq)
  have d: "distinct (map (\<lambda>d. url (metadata d)) (documents ?store))"
    by (simp add: three_runs_eq run_entry_def)
  have n: "\<forall>d\<in>set (documents ?store).
      cosineSimilarity (createEmbedding ?store ''alpha'') (embedding d) \<noteq> NaN"
    by (simp add: three_runs_scores)
  have g: "\<forall>d\<in>set (documents ?store).
      num_gt (cosineSimilarity (createEmbedding ?store ''alpha'') (embedding d)) (Num 0.275)"
    by (simp add: three_runs_scores)
  from i l d n g query_sorted_and_bounded [of 5 ?store "''alpha''"]
  show ?thesis by simp
qed

text \<open>
  C6. The result is not always in non-increasing order of score. The store of the
  example holds three chunks from three URLs, added by one call of \<open>addDocuments\<close>; the
  second holds the word \<open>constructor\<close>, so its embedding starts with NaN and its score
  against every query is NaN. Against the query \<open>alpha\<close> the scores are about 0.4933,
  NaN and 1, in the order of the store. Both comparisons with the NaN score give 0, so
  the array is one run and the sort leaves it as it is; the filter then drops the middle
  chunk, and with limit 5 the result is the chunk of score 0.4933 before the chunk of
  score 1.
\<close>

theorem query_unsorted_after_nan_score:
  "map score (fst (queryRelevantContent mixed_store ''alpha'' 5)) = [Num two_words_score, Num 1] \<and>
   two_words_score < 1 \<and>
   \<not> sorted_wrt (\<lambda>a b. num_ge (score a) (score b))
       (fst (queryRelevantContent mixed_store ''alpha'' 5))"
  using two_words_score_bounds(2)
  by (simp add: query_mixed ranked_mixed run_scored_def)

text \<open>
  C2, as the code has it. A returned chunk that has a chunk of the same URL before it in
  the result overlaps the first returned chunk of that URL by less than 0.5: the loop
  compares a later chunk with the first accepted chunk of its URL only.

  Two later chunks of one URL are never compared with each other. In the example the
  store holds three chunks of one URL; the second and the third differ in letter case
  only, their overlap is 1, and both are returned.
\<close>

theorem later_chunk_differs_from_first:
  "\<forall>j<length (fst (queryRelevantContent this queryText limit)). \<forall>i<j.
     url (sc_metadata (fst (queryRelevantContent this queryText limit) ! i))
       = url (sc_metadata (fst (queryRelevantContent this queryText limit) ! j)) \<longrightarrow>
     (\<exists>f. find (\<lambda>r. url (sc_metadata r)
                     = url (sc_metadata (fst (queryRelevantContent this queryText limit) ! j)))
              (fst (queryRelevantContent this queryText limit)) = Some f \<and>
          contentSimilarity (sc_content f)
            (sc_content (fst (queryRelevantContent this queryText limit) ! j)) < 0.5)"
proof (intro allI impI)
  let ?rs = "fst (queryRelevantContent this queryText limit)"
  fix j i
  assume j: "j < length ?rs" and i: "i < j"
    and u: "url (sc_metadata (?rs ! i)) = url (sc_metadata (?rs ! j))"
  have inv: "first_overlap_below ?rs"
    using query_results_cases [of this queryText limit]
      ranked_results_first_overlap [of this queryText limit]
    by (auto simp: first_overlap_below_Nil)
  have split: "?rs = take j ?rs @ ?rs ! j # drop (Suc j) ?rs"
    using j by (simp add: id_take_nth_drop [symmetric])
  have "?rs ! i \<in> set (take j ?rs)"
    using i j by (metis in_set_conv_nth length_take min.absorb2 nth_take less_imp_le_nat)
  with u have "\<exists>y\<in>set (take j ?rs). same_url (?rs ! j) y"
    by (auto simp: same_url_def)
  with inv split obtain f where
    f: "find (same_url (?rs ! j)) (take j ?rs) = Some f"
       "contentSimilarity (sc_content f) (sc_content (?rs ! j)) < 0.5"
    unfolding first_overlap_below_def by blast
  have "find (same_url (?rs ! j)) ?rs = Some f"
    using find_in_prefix [OF f(1), of "?rs ! j # drop (Suc j) ?rs"] split by simp
  moreover have "same_url (?rs ! j) = (\<lambda>r. url (sc_metadata r) = url (sc_metadata (?rs ! j)))"
    by (auto simp: same_url_def)
  ultimately show "\<exists>f. find (\<lambda>r. url (sc_metadata r) = url (sc_metadata (?rs ! j))) ?rs = Some f \<and>
          contentSimilarity (sc_content f) (sc_content (?rs ! j)) < 0.5"
    using f(2) by auto
qed

theorem later_chunk_differs_from_first_witness:
  "(1::nat) < length (fst (queryRelevantContent (three_runs ''u'' ''u'' ''u'') ''alpha'' 5)) \<and>
   url (sc_metadata (fst (queryRelevantContent (three_runs ''u'' ''u'' ''u'') ''alpha'' 5) ! 0))
     = url (sc_metadata (fst (queryRelevantContent (three_runs ''u'' ''u'' ''u'') ''alpha'' 5) ! 1)) \<and>
   (\<exists>f. find (\<lambda>r. url (sc_metadata r)
                   = url (sc_metadata (fst (queryRelevantContent (three_runs ''u'' ''u'' ''u'') ''alpha'' 5) ! 1)))
            (fst (queryRelevantContent (three_runs ''u'' ''u'' ''u'') ''alpha'' 5)) = Some f \<and>
        contentSimilarity (sc_content f)
          (sc_content (fst (queryRelevantContent (three_runs ''u'' ''u'' ''u'') ''alpha'' 5) ! 1)) < 0.5)"
proof -
  let ?rs = "fst (queryRelevantContent (three_runs ''u'' ''u'' ''u'') ''alpha'' 5)"
  have l: "(1::nat) < length ?rs" by (simp add: query_three_runs ranked_same_url)
  have u: "url (sc_metadata (?rs ! 0)) = url (sc_metadata (?rs ! 1))"
    by (simp add: query_three_runs ranked_same_url run_scored_def)
  from later_chunk_differs_from_first [of "three_runs ''u'' ''u'' ''u''" "''alpha''" 5, rule_format, OF l _ u]
  have "\<exists>f. find (\<lambda>r. url (sc_metadata r) = url (sc_metadata (?rs ! 1))) ?rs = Some f \<and>
        contentSimilarity (sc_content f) (sc_content (?rs ! 1)) < 0.5" by simp
  with l u show ?thesis by simp
qed

theorem same_url_pair_counterexample:
  "fst (queryRelevantContent (three_runs ''u'' ''u'' ''u'') ''alpha'' 5)
     = [run_scored ''u'' (CHR ''a''), run_scored ''u'' (CHR ''b''), run_scored ''u'' (CHR ''B'')] \<and>
   run_scored ''u'' (CHR ''b'') \<noteq> run_scored ''u'' (CHR ''B'') \<and>
   url (sc_metadata (run_scored ''u'' (CHR ''b''))) = url (sc_metadata (run_scored ''u'' (CHR ''B''))) \<and>
   contentSimilarity (sc_content (run_scored ''u'' (CHR ''b''))) (sc_content (run_scored ''u'' (CHR ''B''))) = 1 \<and>
   \<not> contentSimilarity (sc_content (run_scored ''u'' (CHR ''b''))) (sc_content (run_scored ''u'' (CHR ''B''))) < 0.5"
  by (simp add: query_three_runs ranked_same_url run_scored_def overlap_runs)

section \<open>Properties of the similarity score\<close>

lemma left_sum_nonneg: "0 \<le> left_sum ps"
  unfolding left_sum_def by (induction ps) auto

lemma right_sum_nonneg: "0 \<le> right_sum ps"
  unfolding right_sum_def by (induction ps) auto

lemma dot_sum_nonneg: "\<forall>p\<in>set ps. 0 \<le> fst p \<and> 0 \<le> snd p \<Longrightarrow> 0 \<le> dot_sum ps"
  unfolding dot_sum_def by (induction ps) auto

lemma cross_term:
  fixes a b D P Q :: real
  assumes "D\<^sup>2 \<le> P * Q" "0 \<le> P" "0 \<le> Q"
  shows "2 * (a * b) * D \<le> a\<^sup>2 * Q + b\<^sup>2 * P"
proof (rule power2_le_imp_le)
  have "(2 * (a * b) * D)\<^sup>2 = 4 * (a\<^sup>2 * b\<^sup>2) * D\<^sup>2"
    by (simp add: power2_eq_square algebra_simps)
  also have "\<dots> \<le> 4 * (a\<^sup>2 * b\<^sup>2) * (P * Q)"
    using assms(1) by (intro mult_left_mono) auto
  also have "\<dots> \<le> (a\<^sup>2 * Q + b\<^sup>2 * P)\<^sup>2"
  proof -
    have "0 \<le> (a\<^sup>2 * Q - b\<^sup>2 * P)\<^sup>2" by simp
    then show ?thesis by (simp add: power2_eq_square algebra_simps)
  qed
  finally show "(2 * (a * b) * D)\<^sup>2 \<le> (a\<^sup>2 * Q + b\<^sup>2 * P)\<^sup>2" .
  show "0 \<le> a\<^sup>2 * Q + b\<^sup>2 * P" using assms by simp
qed

lemma cauchy_schwarz: "(dot_sum ps)\<^sup>2 \<le> left_sum ps * right_sum ps"
proof (induction ps)
  case Nil
  then show ?case by (simp add: dot_sum_def left_sum_def right_sum_def)
next
  case (Cons p ps)
  obtain a b where p: "p = (a, b)" by (cases p)
  let ?D = "dot_sum ps" and ?P = "left_sum ps" and ?Q = "right_sum ps"
  have c: "2 * (a * b) * ?D \<le> a\<^sup>2 * ?Q + b\<^sup>2 * ?P"
    using Cons.IH left_sum_nonneg right_sum_nonneg by (rule cross_term)
  have "(dot_sum (p # ps))\<^sup>2 = (a * b)\<^sup>2 + 2 * (a * b) * ?D + ?D\<^sup>2"
    by (simp add: p dot_sum_def power2_eq_square algebra_simps)
  also have "\<dots> \<le> (a * b)\<^sup>2 + (a\<^sup>2 * ?Q + b\<^sup>2 * ?P) + ?P * ?Q"
    using c Cons.IH by linarith
  also have "\<dots> = left_sum (p # ps) * right_sum (p # ps)"
    by (simp add: p left_sum_def right_sum_def power2_eq_square algebra_simps)
  finally show ?case .
qed

lemma accumulate_reals:
  "foldl accumulate (Num d, Num p, Num q) (map (\<lambda>r. (Num (fst r), Num (snd r))) ps)
   = (Num (d + dot_sum ps), Num (p + left_sum ps), Num (q + right_sum ps))"
  by (induction ps arbitrary: d p q)
     (simp_all add: accumulate_def dot_sum_def left_sum_def right_sum_def algebra_simps)

lemma numeric_list:
  "\<forall>x\<in>set v. \<exists>r\<ge>0. x = Num r \<Longrightarrow> \<exists>rs. v = map Num rs \<and> (\<forall>r\<in>set rs. 0 \<le> r)"
proof (induction v)
  case Nil
  then show ?case by simp
next
  case (Cons x v)
  then obtain rs where rs: "v = map Num rs" "\<forall>r\<in>set rs. 0 \<le> r" by auto
  from Cons.prems obtain r where "0 \<le> r" "x = Num r" by auto
  with rs have "x # v = map Num (r # rs) \<and> (\<forall>t\<in>set (r # rs). 0 \<le> t)" by simp
  then show ?case by (rule exI [of _ "r # rs"])
qed

lemma zip_reals:
  "zip (map Num as) (map Num bs) = map (\<lambda>r. (Num (fst r), Num (snd r))) (zip as bs)"
  by (induction as arbitrary: bs) (auto simp: zip_Cons1 split: list.splits)

text \<open>
  In exact arithmetic the score of two vectors whose entries are numbers that are not
  negative is a number between 0 and 1.
\<close>

lemma cosineSimilarity_exact_bounds:
  assumes "\<forall>x\<in>set vecA. \<exists>r\<ge>0. x = Num r" and "\<forall>x\<in>set vecB. \<exists>r\<ge>0. x = Num r"
  shows "\<exists>s. cosineSimilarity vecA vecB = Num s \<and> 0 \<le> s \<and> s \<le> 1"
proof -
  from numeric_list [OF assms(1)] obtain as where as: "vecA = map Num as" "\<forall>r\<in>set as. 0 \<le> r"
    by blast
  from numeric_list [OF assms(2)] obtain bs where bs: "vecB = map Num bs" "\<forall>r\<in>set bs. 0 \<le> r"
    by blast
  let ?ps = "zip as bs"
  let ?D = "dot_sum ?ps" and ?P = "left_sum ?ps" and ?Q = "right_sum ?ps"
  have acc: "foldl accumulate (Num 0, Num 0, Num 0) (zip vecA vecB) = (Num ?D, Num ?P, Num ?Q)"
    unfolding as bs zip_reals using accumulate_reals [of 0 0 0 ?ps] by simp
  have P0: "0 \<le> ?P" by (rule left_sum_nonneg)
  have Q0: "0 \<le> ?Q" by (rule right_sum_nonneg)
  have "\<forall>p\<in>set ?ps. 0 \<le> fst p \<and> 0 \<le> snd p"
    using as(2) bs(2) by (auto dest: set_zip_leftD set_zip_rightD)
  then have D0: "0 \<le> ?D" by (rule dot_sum_nonneg)
  define ratio where "ratio = real (min (nonZero vecA) (nonZero vecB))
      / real (max (max (nonZero vecA) (nonZero vecB)) 1)"
  have r0: "0 \<le> ratio" unfolding ratio_def by simp
  have "real (min (nonZero vecA) (nonZero vecB)) \<le> real (max (max (nonZero vecA) (nonZero vecB)) 1)"
    by simp
  moreover have "0 < real (max (max (nonZero vecA) (nonZero vecB)) 1)" by simp
  ultimately have r1: "ratio \<le> 1" unfolding ratio_def by (simp only: divide_le_eq_1_pos)
  define factor where "factor = 0.7 + 0.3 * ratio"
  have f0: "0 \<le> factor" unfolding factor_def using r0 by simp
  have f1: "factor \<le> 1" unfolding factor_def using r1 by simp
  show ?thesis
  proof (cases "?P = 0 \<or> ?Q = 0")
    case True
    then show ?thesis unfolding cosineSimilarity_def acc by auto
  next
    case False
    with P0 Q0 have P: "0 < ?P" and Q: "0 < ?Q" by auto
    let ?den = "sqrt ?P * sqrt ?Q"
    have den: "0 < ?den" using P Q by simp
    have "?D\<^sup>2 \<le> ?P * ?Q" by (rule cauchy_schwarz)
    also have "\<dots> = ?den\<^sup>2" using P0 Q0 by (simp add: power_mult_distrib)
    finally have sq: "?D\<^sup>2 \<le> ?den\<^sup>2" .
    have le: "?D \<le> ?den" using sq less_imp_le [OF den] by (rule power2_le_imp_le)
    have c1: "?D / ?den \<le> 1" using le den by (simp only: divide_le_eq_1_pos)
    have c0: "0 \<le> ?D / ?den" using D0 less_imp_le [OF den] by (rule divide_nonneg_nonneg)
    have val: "cosineSimilarity vecA vecB = Num (?D / ?den * factor)"
      unfolding cosineSimilarity_def acc factor_def ratio_def
      using False P0 Q0 den by (simp add: Let_def)
    have "0 \<le> ?D / ?den * factor" using c0 f0 by (rule mult_nonneg_nonneg)
    moreover have "?D / ?den * factor \<le> 1 * 1"
      using c1 f1 _ f0 by (rule mult_mono) simp
    ultimately show ?thesis unfolding val by simp
  qed
qed

subsection \<open>Rounding to a double\<close>

lemma round_even_near: "\<bar>x - of_int n\<bar> < 1/2 \<Longrightarrow> round_even x = n"
proof -
  assume a: "\<bar>x - of_int n\<bar> < 1/2"
  show ?thesis
  proof (cases "of_int n \<le> x")
    case True
    from a have "x < of_int n + 1" by linarith
    with True have "\<lfloor>x\<rfloor> = n" by (rule floor_unique)
    moreover from a have "x - of_int n < 1/2" by linarith
    ultimately show ?thesis by (simp add: round_even_def Let_def)
  next
    case False
    from a have "of_int n - 1 \<le> x" by linarith
    then have "of_int (n - 1) \<le> x" by simp
    moreover from False have "x < of_int (n - 1) + 1" by simp
    ultimately have f: "\<lfloor>x\<rfloor> = n - 1" by (rule floor_unique)
    from a have "x - (of_int n - 1) > 1/2" by linarith
    then have "x - of_int (n - 1) > 1/2" by simp
    with f show ?thesis by (simp add: round_even_def Let_def)
  qed
qed

lemma round_even_int: "round_even (of_int n) = n"
  by (rule round_even_near) simp

lemma round_even_tie: "round_even (of_int n + 1/2) = (if even n then n else n + 1)"
proof -
  have "\<lfloor>of_int n + (1/2::real)\<rfloor> = n" by (intro floor_unique) simp_all
  then show ?thesis by (simp add: round_even_def Let_def)
qed

lemma fl_binade:
  assumes "2 powr of_int k \<le> x" "x < 2 powr of_int (k + 1)"
  shows "fl x = of_int (round_even (x * 2 powr of_int (52 - k))) * 2 powr of_int (k - 52)"
proof -
  have "0 < 2 powr (of_int k :: real)" by simp
  with assms(1) have pos: "0 < x" by linarith
  have "\<lfloor>log 2 x\<rfloor> = k"
    using pos assms by (subst floor_log_eq_powr_iff) simp_all
  with pos show ?thesis by (simp add: fl_def Let_def)
qed

lemma fl_between_1_2:
  "1 \<le> x \<Longrightarrow> x < 2 \<Longrightarrow> fl x = of_int (round_even (x * 2 ^ 52)) / 2 ^ 52"
  using fl_binade [of 0 x] by (simp add: powr_neg_numeral)

lemma fl_between_2_4:
  "2 \<le> x \<Longrightarrow> x < 4 \<Longrightarrow> fl x = of_int (round_even (x * 2 ^ 51)) / 2 ^ 51"
  using fl_binade [of 1 x] by (simp add: powr_neg_numeral)

lemma fl_between_half_1:
  "1/2 \<le> x \<Longrightarrow> x < 1 \<Longrightarrow> fl x = of_int (round_even (x * 2 ^ 53)) / 2 ^ 53"
  using fl_binade [of "- 1" x] by (simp add: powr_neg_numeral powr_minus_divide)

lemma fl_between_quarter_half:
  "1/4 \<le> x \<Longrightarrow> x < 1/2 \<Longrightarrow> fl x = of_int (round_even (x * 2 ^ 54)) / 2 ^ 54"
  using fl_binade [of "- 2" x] by (simp add: powr_neg_numeral powr_minus_divide)

text \<open>The steps of the function on \<open>[1, 1, 1]\<close> and \<open>[1, 1, 1]\<close>.\<close>

lemma fl_small_integers: "fl 1 = 1" "fl 2 = 2" "fl 3 = 3"
proof -
  have "round_even (1 * 2 ^ 52) = 2 ^ 52" by (rule round_even_near) simp
  then show "fl 1 = 1" by (simp add: fl_between_1_2)
  have "round_even (2 * 2 ^ 51) = 2 ^ 52" by (rule round_even_near) simp
  then show "fl 2 = 2" by (simp add: fl_between_2_4)
  have "round_even (3 * 2 ^ 51) = 3 * 2 ^ 51" by (rule round_even_near) simp
  then show "fl 3 = 3" by (simp add: fl_between_2_4)
qed

lemma sqrt_3_bounds: "7800463371553961.5 / 2 ^ 52 < sqrt 3" "sqrt 3 < 7800463371553962.5 / 2 ^ 52"
proof -
  show "7800463371553961.5 / 2 ^ 52 < sqrt 3"
    by (rule real_less_rsqrt) (simp add: power2_eq_square)
  show "sqrt 3 < 7800463371553962.5 / 2 ^ 52"
    by (rule real_less_lsqrt) (simp_all add: power2_eq_square)
qed

lemma near_from_bounds:
  fixes y n :: real
  shows "n - 1/2 < y \<Longrightarrow> y < n + 1/2 \<Longrightarrow> \<bar>y - n\<bar> < 1/2"
  by linarith

lemma fl_sqrt_3: "fl (sqrt 3) = 7800463371553962 / 2 ^ 52"
proof -
  have lo: "1 \<le> sqrt 3" by simp
  have hi: "sqrt 3 < 2" using sqrt_3_bounds(2) by simp
  have a: "7800463371553962 - 1/2 < sqrt 3 * 2 ^ 52"
    using sqrt_3_bounds(1) by (simp add: field_simps)
  have b: "sqrt 3 * 2 ^ 52 < 7800463371553962 + 1/2"
    using sqrt_3_bounds(2) by (simp add: field_simps)
  have "\<bar>sqrt 3 * 2 ^ 52 - 7800463371553962\<bar> < 1/2"
    using a b by (rule near_from_bounds)
  then have "\<bar>sqrt 3 * 2 ^ 52 - of_int 7800463371553962\<bar> < 1/2" by simp
  then have "round_even (sqrt 3 * 2 ^ 52) = 7800463371553962" by (rule round_even_near)
  with lo hi show ?thesis by (simp add: fl_between_1_2)
qed

lemma fl_square: "fl (7800463371553962 / 2 ^ 52 * (7800463371553962 / 2 ^ 52)) = 6755399441055743 / 2 ^ 51"
proof -
  let ?x = "7800463371553962 / 2 ^ 52 * (7800463371553962 / 2 ^ 52) :: real"
  have "\<bar>?x * 2 ^ 51 - of_int 6755399441055743\<bar> < 1/2" by simp
  then have r: "round_even (?x * 2 ^ 51) = 6755399441055743" by (rule round_even_near)
  have lo: "2 \<le> ?x" and hi: "?x < 4" by simp_all
  show ?thesis unfolding fl_between_2_4 [OF lo hi] r by simp
qed

lemma fl_quotient: "fl (3 / (6755399441055743 / 2 ^ 51)) = 1 + 1 / 2 ^ 52"
proof -
  let ?x = "3 / (6755399441055743 / 2 ^ 51) :: real"
  have "\<bar>?x * 2 ^ 52 - of_int 4503599627370497\<bar> < 1/2" by simp
  then have r: "round_even (?x * 2 ^ 52) = 4503599627370497" by (rule round_even_near)
  have lo: "1 \<le> ?x" and hi: "?x < 2" by simp_all
  show ?thesis unfolding fl_between_1_2 [OF lo hi] r by simp
qed

lemma fl_literals: "fl 0.7 = 6305039478318694 / 2 ^ 53" "fl 0.3 = 5404319552844595 / 2 ^ 54"
proof -
  have "\<bar>0.7 * 2 ^ 53 - of_int 6305039478318694\<bar> < (1/2::real)" by simp
  then have "round_even (0.7 * 2 ^ 53) = 6305039478318694" by (rule round_even_near)
  then show "fl 0.7 = 6305039478318694 / 2 ^ 53" by (simp add: fl_between_half_1)
  have "\<bar>0.3 * 2 ^ 54 - of_int 5404319552844595\<bar> < (1/2::real)" by simp
  then have "round_even (0.3 * 2 ^ 54) = 5404319552844595" by (rule round_even_near)
  then show "fl 0.3 = 5404319552844595 / 2 ^ 54" by (simp add: fl_between_quarter_half)
qed

lemma fl_product_literal: "fl (5404319552844595 / 2 ^ 54 * 1) = 5404319552844595 / 2 ^ 54"
proof -
  let ?x = "5404319552844595 / 2 ^ 54 * 1 :: real"
  have "\<bar>?x * 2 ^ 54 - of_int 5404319552844595\<bar> < 1/2" by simp
  then have r: "round_even (?x * 2 ^ 54) = 5404319552844595" by (rule round_even_near)
  have lo: "1/4 \<le> ?x" and hi: "?x < 1/2" by simp_all
  show ?thesis unfolding fl_between_quarter_half [OF lo hi] r by simp
qed

lemma fl_factor: "fl (6305039478318694 / 2 ^ 53 + 5404319552844595 / 2 ^ 54) = 1"
proof -
  let ?x = "6305039478318694 / 2 ^ 53 + 5404319552844595 / 2 ^ 54 :: real"
  have "?x * 2 ^ 53 = of_int 9007199254740991 + 1/2" by simp
  then have r: "round_even (?x * 2 ^ 53) = 9007199254740992"
    by (simp only: round_even_tie) simp
  have lo: "1/2 \<le> ?x" and hi: "?x < 1" by simp_all
  show ?thesis unfolding fl_between_half_1 [OF lo hi] r by simp
qed

lemma fl_result: "fl ((1 + 1 / 2 ^ 52) * 1) = 1 + 1 / 2 ^ 52"
proof -
  let ?x = "(1 + 1 / 2 ^ 52) * 1 :: real"
  have "\<bar>?x * 2 ^ 52 - of_int 4503599627370497\<bar> < 1/2" by simp
  then have r: "round_even (?x * 2 ^ 52) = 4503599627370497" by (rule round_even_near)
  have lo: "1 \<le> ?x" and hi: "?x < 2" by simp_all
  show ?thesis unfolding fl_between_1_2 [OF lo hi] r by simp
qed

subsection \<open>The error of the rounded score\<close>

text \<open>
  One rounding has a relative error of at most \<open>unit_roundoff\<close>. A sum of \<open>n\<close> products
  that are not negative, accumulated as in the loop, is within the factors
  \<open>(1 - unit_roundoff) ^ (2 * n)\<close> and \<open>(1 + unit_roundoff) ^ (2 * n)\<close> of the exact sum.
\<close>

lemma round_even_error: "\<bar>of_int (round_even x) - x\<bar> \<le> 1/2"
proof -
  have "of_int \<lfloor>x\<rfloor> \<le> x" "x < of_int \<lfloor>x\<rfloor> + 1" by linarith+
  then show ?thesis by (auto simp: round_even_def Let_def)
qed

lemma fl_error: "\<bar>fl x - x\<bar> \<le> \<bar>x\<bar> / 2 ^ 53"
proof (cases "x = 0")
  case True
  then show ?thesis by (simp add: fl_def)
next
  case False
  define a where "a = \<bar>x\<bar>"
  define e where "e = \<lfloor>log 2 a\<rfloor>"
  define p :: real where "p = 2 powr of_int (e - 52)"
  define m :: real where "m = a * 2 powr of_int (52 - e)"
  define r where "r = (of_int (round_even m) :: real)"
  have a: "0 < a" using False by (simp add: a_def)
  have p: "0 < p" by (simp add: p_def)
  have "of_int e \<le> log 2 a" unfolding e_def by simp
  then have "2 powr of_int e \<le> 2 powr log 2 a" by simp
  then have lo: "2 powr of_int e \<le> a" using a by simp
  have fl: "fl x = sgn x * r * p"
    using False by (simp add: fl_def Let_def a_def e_def m_def r_def p_def)
  have "2 powr of_int (52 - e) * 2 powr of_int (e - 52) = (1::real)"
    by (simp flip: powr_add)
  then have mp: "m * p = a" unfolding m_def p_def by (simp add: mult.assoc)
  have x: "x = sgn x * (m * p)" unfolding mp a_def by (simp add: sgn_mult_abs)
  have "fl x - x = sgn x * r * p - sgn x * (m * p)" using fl x by simp
  also have "\<dots> = sgn x * ((r - m) * p)" by (simp add: algebra_simps)
  finally have "\<bar>fl x - x\<bar> = \<bar>sgn x\<bar> * (\<bar>r - m\<bar> * p)"
    using p by (simp add: abs_mult)
  also have "\<bar>sgn x\<bar> = 1" using False by (simp add: abs_sgn_eq)
  finally have eq: "\<bar>fl x - x\<bar> = \<bar>r - m\<bar> * p" by simp
  have "\<bar>r - m\<bar> \<le> 1/2" unfolding r_def by (rule round_even_error)
  then have s1: "\<bar>r - m\<bar> * p \<le> 1/2 * p" using p by (intro mult_right_mono) simp_all
  have pe: "p = 2 powr of_int e / 2 ^ 52"
    unfolding p_def by (simp add: powr_diff)
  have s2: "1/2 * p = 2 powr of_int e / 2 ^ 53" unfolding pe by simp
  have s3: "2 powr of_int e / 2 ^ 53 \<le> a / 2 ^ 53" using lo by (intro divide_right_mono) simp_all
  from s1 s2 s3 have "\<bar>r - m\<bar> * p \<le> a / 2 ^ 53" by linarith
  then show ?thesis unfolding eq a_def .
qed

lemma fl_upper: "0 \<le> x \<Longrightarrow> fl x \<le> (1 + 1 / 2 ^ 53) * x"
proof -
  assume x: "0 \<le> x"
  from fl_error [of x] x have "fl x - x \<le> x / 2 ^ 53" by linarith
  then show ?thesis by (simp add: algebra_simps)
qed

lemma fl_lower: "0 \<le> x \<Longrightarrow> (1 - 1 / 2 ^ 53) * x \<le> fl x"
proof -
  assume x: "0 \<le> x"
  from fl_error [of x] x have "x - fl x \<le> x / 2 ^ 53" by linarith
  then show ?thesis by (simp add: algebra_simps)
qed

lemma fl_nonneg: "0 \<le> x \<Longrightarrow> 0 \<le> fl x"
proof -
  assume x: "0 \<le> x"
  have "0 \<le> (1 - 1 / 2 ^ 53) * x" using x by (intro mult_nonneg_nonneg) simp_all
  also have "\<dots> \<le> fl x" using x by (rule fl_lower)
  finally show ?thesis .
qed

lemma unit_roundoff_range: "0 < unit_roundoff" "unit_roundoff < 1"
  by (simp_all add: unit_roundoff_def)

lemma fl_le: "0 \<le> x \<Longrightarrow> fl x \<le> (1 + unit_roundoff) * x"
  unfolding unit_roundoff_def by (rule fl_upper)

lemma fl_ge: "0 \<le> x \<Longrightarrow> (1 - unit_roundoff) * x \<le> fl x"
  unfolding unit_roundoff_def by (rule fl_lower)

lemma step_upper:
  assumes "0 \<le> d" "0 \<le> t" "0 \<le> s" "s \<le> (1 + unit_roundoff) ^ k * d"
  shows "fl (s + fl t) \<le> (1 + unit_roundoff) ^ (k + 2) * (d + t)"
proof -
  let ?h = "1 + unit_roundoff"
  have h: "1 \<le> ?h" using unit_roundoff_range by simp
  have hk: "?h ^ k \<le> ?h ^ (k + 1)" using h by (intro power_increasing) simp_all
  have h1: "?h \<le> ?h ^ (k + 1)" using h power_increasing [of 1 "k + 1" ?h] by simp
  have ft: "0 \<le> fl t" using assms(2) by (rule fl_nonneg)
  have "fl (s + fl t) \<le> ?h * (s + fl t)" using assms(3) ft by (intro fl_le) simp
  also have "\<dots> \<le> ?h * (?h ^ (k + 1) * d + ?h ^ (k + 1) * t)"
  proof (intro mult_left_mono add_mono)
    have "s \<le> ?h ^ k * d" by (rule assms(4))
    also have "\<dots> \<le> ?h ^ (k + 1) * d" using hk assms(1) by (rule mult_right_mono)
    finally show "s \<le> ?h ^ (k + 1) * d" .
    have "fl t \<le> ?h * t" using assms(2) by (rule fl_le)
    also have "\<dots> \<le> ?h ^ (k + 1) * t" using h1 assms(2) by (rule mult_right_mono)
    finally show "fl t \<le> ?h ^ (k + 1) * t" .
    show "0 \<le> ?h" using h by simp
  qed
  also have "\<dots> = ?h ^ (k + 2) * (d + t)" by (simp add: algebra_simps)
  finally show ?thesis .
qed

lemma step_lower:
  assumes "0 \<le> d" "0 \<le> t" "(1 - unit_roundoff) ^ k * d \<le> s"
  shows "(1 - unit_roundoff) ^ (k + 2) * (d + t) \<le> fl (s + fl t)"
proof -
  let ?l = "1 - unit_roundoff"
  have l0: "0 \<le> ?l" and l1: "?l \<le> 1" using unit_roundoff_range by simp_all
  have lk: "?l ^ (k + 1) \<le> ?l ^ k" using l0 l1 by (intro power_decreasing) simp_all
  have lone: "?l ^ (k + 1) \<le> ?l" using l0 l1 power_decreasing [of 1 "k + 1" ?l] by simp
  have ft: "0 \<le> fl t" using assms(2) by (rule fl_nonneg)
  have "0 \<le> ?l ^ k * d" using l0 assms(1) by simp
  with assms(3) have s: "0 \<le> s" by linarith
  have "?l ^ (k + 2) * (d + t) = ?l * (?l ^ (k + 1) * d + ?l ^ (k + 1) * t)"
    by (simp add: algebra_simps)
  also have "\<dots> \<le> ?l * (s + fl t)"
  proof (intro mult_left_mono add_mono)
    have "?l ^ (k + 1) * d \<le> ?l ^ k * d" using lk assms(1) by (rule mult_right_mono)
    also have "\<dots> \<le> s" by (rule assms(3))
    finally show "?l ^ (k + 1) * d \<le> s" .
    have "?l ^ (k + 1) * t \<le> ?l * t" using lone assms(2) by (rule mult_right_mono)
    also have "\<dots> \<le> fl t" using assms(2) by (rule fl_ge)
    finally show "?l ^ (k + 1) * t \<le> fl t" .
    show "0 \<le> ?l" by (rule l0)
  qed
  also have "\<dots> \<le> fl (s + fl t)" using s ft by (intro fl_ge) simp
  finally show ?thesis .
qed

lemma rounded_sum_bounds:
  assumes "\<forall>t\<in>set ts. 0 \<le> t" "0 \<le> d"
    "(1 - unit_roundoff) ^ k * d \<le> s" "s \<le> (1 + unit_roundoff) ^ k * d"
  shows "(1 - unit_roundoff) ^ (k + 2 * length ts) * (d + sum_list ts)
           \<le> foldl (\<lambda>s t. fl (s + fl t)) s ts \<and>
         foldl (\<lambda>s t. fl (s + fl t)) s ts
           \<le> (1 + unit_roundoff) ^ (k + 2 * length ts) * (d + sum_list ts)"
  using assms
proof (induction ts arbitrary: s d k)
  case Nil
  then show ?case by simp
next
  case (Cons t ts)
  from Cons.prems have t: "0 \<le> t" and ts: "\<forall>t\<in>set ts. 0 \<le> t" by simp_all
  have "0 \<le> (1 - unit_roundoff) ^ k * d" using unit_roundoff_range Cons.prems(2) by simp
  with Cons.prems(3) have s: "0 \<le> s" by linarith
  have lo: "(1 - unit_roundoff) ^ (k + 2) * (d + t) \<le> fl (s + fl t)"
    using Cons.prems(2) t Cons.prems(3) by (rule step_lower)
  have hi: "fl (s + fl t) \<le> (1 + unit_roundoff) ^ (k + 2) * (d + t)"
    using Cons.prems(2) t s Cons.prems(4) by (rule step_upper)
  have d: "0 \<le> d + t" using Cons.prems(2) t by simp
  from Cons.IH [OF ts d lo hi] show ?case by (simp add: add.assoc algebra_simps)
qed

lemma sqrt_scaled:
  assumes "0 \<le> l" "l ^ (2 * n) * P \<le> R"
  shows "l ^ n * sqrt P \<le> sqrt R"
proof -
  have "l ^ (2 * n) = (l ^ n)\<^sup>2" by (simp add: power_mult power2_eq_square flip: power_add mult_2)
  then have "sqrt (l ^ (2 * n) * P) = l ^ n * sqrt P"
    using assms(1) by (simp add: real_sqrt_mult)
  moreover have "sqrt (l ^ (2 * n) * P) \<le> sqrt R" using assms(2) by simp
  ultimately show ?thesis by simp
qed

lemma factor_bounds:
  fixes na nb :: nat
  defines "ratio \<equiv> real (min na nb) / real (max (max na nb) 1)"
  shows "0 \<le> fl (fl 0.7 + fl (fl 0.3 * fl ratio))"
    and "fl (fl 0.7 + fl (fl 0.3 * fl ratio)) \<le> (1 + unit_roundoff) ^ 4"
proof -
  let ?h = "1 + unit_roundoff"
  have h: "1 \<le> ?h" using unit_roundoff_range by simp
  have r0: "0 \<le> ratio" unfolding ratio_def by simp
  have "real (min na nb) \<le> real (max (max na nb) 1)" by simp
  moreover have "0 < real (max (max na nb) 1)" by simp
  ultimately have r1: "ratio \<le> 1" unfolding ratio_def by (simp only: divide_le_eq_1_pos)
  have lr0: "0 \<le> fl ratio" using r0 by (rule fl_nonneg)
  have "fl ratio \<le> ?h * ratio" using r0 by (rule fl_le)
  also have "\<dots> \<le> ?h * 1" using r1 h by (intro mult_left_mono) simp_all
  finally have lr1: "fl ratio \<le> ?h" by simp
  have c0: "0 \<le> fl 0.3" by (rule fl_nonneg) simp
  have c1: "fl 0.3 \<le> ?h * 0.3" by (rule fl_le) simp
  have p0: "0 \<le> fl 0.3 * fl ratio" using c0 lr0 by (rule mult_nonneg_nonneg)
  have pp: "fl 0.3 * fl ratio \<le> (?h * 0.3) * ?h" using c1 lr1 _ lr0 by (rule mult_mono) (use h in simp)
  have eq: "(?h * 0.3) * ?h = 0.3 * ?h ^ 2" by (simp add: power2_eq_square)
  have p1: "fl 0.3 * fl ratio \<le> 0.3 * ?h ^ 2" using pp unfolding eq .
  have q0: "0 \<le> fl (fl 0.3 * fl ratio)" using p0 by (rule fl_nonneg)
  have "fl (fl 0.3 * fl ratio) \<le> ?h * (fl 0.3 * fl ratio)" using p0 by (rule fl_le)
  also have "\<dots> \<le> ?h * (0.3 * ?h ^ 2)" using p1 h by (intro mult_left_mono) simp_all
  also have "\<dots> = 0.3 * ?h ^ 3" by (simp add: power3_eq_cube power2_eq_square)
  finally have q1: "fl (fl 0.3 * fl ratio) \<le> 0.3 * ?h ^ 3" .
  have s0: "0 \<le> fl 0.7" by (rule fl_nonneg) simp
  have "?h ^ 1 \<le> ?h ^ 3" using h by (intro power_increasing) simp_all
  then have h3: "?h \<le> ?h ^ 3" by simp
  have "fl 0.7 \<le> ?h * 0.7" by (rule fl_le) simp
  also have "\<dots> \<le> ?h ^ 3 * 0.7" using h3 by (intro mult_right_mono) simp_all
  finally have s1: "fl 0.7 \<le> 0.7 * ?h ^ 3" by simp
  have t0: "0 \<le> fl 0.7 + fl (fl 0.3 * fl ratio)" using s0 q0 by simp
  have t1: "fl 0.7 + fl (fl 0.3 * fl ratio) \<le> ?h ^ 3" using s1 q1 by simp
  show "0 \<le> fl (fl 0.7 + fl (fl 0.3 * fl ratio))" using t0 by (rule fl_nonneg)
  have "fl (fl 0.7 + fl (fl 0.3 * fl ratio)) \<le> ?h * (fl 0.7 + fl (fl 0.3 * fl ratio))"
    using t0 by (rule fl_le)
  also have "\<dots> \<le> ?h * ?h ^ 3" using t1 h by (intro mult_left_mono) simp_all
  also have "\<dots> = ?h ^ 4" by (simp add: power4_eq_xxxx power3_eq_cube)
  finally show "fl (fl 0.7 + fl (fl 0.3 * fl ratio)) \<le> ?h ^ 4" .
qed

lemma rounding_bound:
  assumes "n \<le> 384"
  shows "(1 + unit_roundoff) ^ (2 * n + 6) / (1 - unit_roundoff) ^ (2 * n + 3) \<le> 1 + 1 / 2 ^ 41"
proof -
  let ?h = "1 + unit_roundoff" and ?l = "1 - unit_roundoff"
  have h0: "0 < ?h" and l0: "0 < ?l" using unit_roundoff_range by simp_all
  have "?h * ?l = 1 - unit_roundoff * unit_roundoff" by (simp add: algebra_simps)
  also have "\<dots> \<le> 1" by simp
  finally have "?h * ?l \<le> 1" .
  then have hl: "?h \<le> 1 / ?l" using l0 by (simp add: le_divide_eq)
  have "?h ^ (2 * n + 6) \<le> (1 / ?l) ^ (2 * n + 6)"
    using hl less_imp_le [OF h0] by (rule power_mono)
  also have "\<dots> = 1 / ?l ^ (2 * n + 6)" by (simp add: power_one_over)
  finally have num: "?h ^ (2 * n + 6) \<le> 1 / ?l ^ (2 * n + 6)" .
  have lp: "0 < ?l ^ (2 * n + 3)" using l0 by (rule zero_less_power)
  have "?h ^ (2 * n + 6) / ?l ^ (2 * n + 3) \<le> (1 / ?l ^ (2 * n + 6)) / ?l ^ (2 * n + 3)"
    using num less_imp_le [OF lp] by (rule divide_right_mono)
  also have "\<dots> = 1 / (?l ^ (2 * n + 6) * ?l ^ (2 * n + 3))" by simp
  also have "?l ^ (2 * n + 6) * ?l ^ (2 * n + 3) = ?l ^ ((2 * n + 6) + (2 * n + 3))"
    by (simp only: power_add)
  also have "(2 * n + 6) + (2 * n + 3) = 4 * n + 9" by simp
  finally have one: "?h ^ (2 * n + 6) / ?l ^ (2 * n + 3) \<le> 1 / ?l ^ (4 * n + 9)" .
  have "1 + real (4 * n + 9) * (- unit_roundoff) \<le> (1 + (- unit_roundoff)) ^ (4 * n + 9)"
    using unit_roundoff_range by (intro Bernoulli_inequality) simp
  then have bern: "1 - real (4 * n + 9) * unit_roundoff \<le> ?l ^ (4 * n + 9)" by simp
  have "real (4 * n + 9) \<le> 2048" using assms by simp
  then have "real (4 * n + 9) * unit_roundoff \<le> 2048 * unit_roundoff"
    using unit_roundoff_range by (intro mult_right_mono) simp_all
  also have "2048 * unit_roundoff = 1 / 2 ^ 42" by (simp add: unit_roundoff_def)
  finally have "1 - 1 / 2 ^ 42 \<le> 1 - real (4 * n + 9) * unit_roundoff" by simp
  with bern have low: "1 - 1 / 2 ^ 42 \<le> ?l ^ (4 * n + 9)" by linarith
  have "1 / ?l ^ (4 * n + 9) \<le> 1 / (1 - 1 / 2 ^ 42)"
    using low by (intro divide_left_mono) simp_all
  also have "\<dots> \<le> 1 + 1 / 2 ^ 41" by simp
  finally have two: "1 / ?l ^ (4 * n + 9) \<le> 1 + 1 / 2 ^ 41" .
  from one two show ?thesis by linarith
qed

subsection \<open>The range of the intermediate results\<close>

text \<open>
  Rounding keeps a bound that is a power of 2, so a result that is 0 or between two such
  powers stays so after rounding, and the range of every operation of the function
  follows from the range of the entries.
\<close>

lemma round_even_ge: "of_int N \<le> x \<Longrightarrow> N \<le> round_even x"
proof -
  assume "of_int N \<le> x"
  then have "N \<le> \<lfloor>x\<rfloor>" by (simp add: le_floor_iff)
  moreover have "\<lfloor>x\<rfloor> \<le> round_even x" by (simp add: round_even_def Let_def)
  ultimately show ?thesis by linarith
qed

lemma round_even_le: "x \<le> of_int N \<Longrightarrow> round_even x \<le> N"
proof (cases "x = of_int N")
  case True
  then show ?thesis by (simp add: round_even_int)
next
  case False
  assume "x \<le> of_int N"
  with False have "x < of_int N" by simp
  then have "\<lfloor>x\<rfloor> < N" by (simp add: floor_less_iff)
  moreover have "round_even x \<le> \<lfloor>x\<rfloor> + 1" by (simp add: round_even_def Let_def)
  ultimately show ?thesis by linarith
qed

lemma binade_exists:
  fixes x :: real
  assumes "0 < x"
  shows "\<exists>k. 2 powr of_int k \<le> x \<and> x < 2 powr of_int (k + 1)"
proof -
  define k where "k = \<lfloor>log 2 x\<rfloor>"
  have "of_int k \<le> log 2 x" unfolding k_def by simp
  then have "2 powr of_int k \<le> 2 powr log 2 x" by simp
  then have lo: "2 powr of_int k \<le> x" using assms by simp
  have "log 2 x < of_int (k + 1)" unfolding k_def by simp
  then have "2 powr log 2 x < 2 powr of_int (k + 1)" by (simp only: powr_less_cancel_iff) 
  then have hi: "x < 2 powr of_int (k + 1)" using assms by simp
  from lo hi show ?thesis by blast
qed

lemma powr_split: "(2::real) powr of_int k = of_int (2 ^ 52) * 2 powr of_int (k - 52)"
proof -
  have p52: "(2::real) powr 52 = of_int (2 ^ 52)" by simp
  have "(of_int k :: real) = 52 + of_int (k - 52)" by simp
  then have "(2::real) powr of_int k = 2 powr (52 + of_int (k - 52))" by (rule arg_cong)
  also have "\<dots> = 2 powr 52 * 2 powr of_int (k - 52)" by (rule powr_add)
  finally show ?thesis unfolding p52 .
qed

lemma powr_join: "(2::real) powr of_int k * 2 powr of_int (52 - k) = of_int (2 ^ 52)"
proof -
  have p52: "(2::real) powr 52 = of_int (2 ^ 52)" by simp
  have "(2::real) powr of_int k * 2 powr of_int (52 - k) = 2 powr (of_int k + of_int (52 - k))"
    by (rule powr_add [symmetric])
  also have "of_int k + of_int (52 - k) = (52::real)" by simp
  finally show ?thesis unfolding p52 .
qed

lemma fl_ge_powr:
  assumes "2 powr of_int j \<le> x"
  shows "2 powr of_int j \<le> fl x"
proof -
  have "0 < 2 powr (of_int j :: real)" by simp
  with assms have pos: "0 < x" by linarith
  from binade_exists [OF pos] obtain k where
    k: "2 powr of_int k \<le> x" "x < 2 powr of_int (k + 1)" by blast
  from assms k(2) have "2 powr (of_int j :: real) < 2 powr of_int (k + 1)" by linarith
  then have "(of_int j :: real) < of_int (k + 1)" by simp
  then have jk: "j \<le> k" by linarith
  define m where "m = x * 2 powr of_int (52 - k)"
  have "2 powr of_int k * 2 powr of_int (52 - k) \<le> m"
    unfolding m_def using k(1) by (intro mult_right_mono) simp_all
  then have "of_int (2 ^ 52) \<le> m" unfolding powr_join .
  then have r: "2 ^ 52 \<le> round_even m" by (rule round_even_ge)
  have "2 powr of_int j \<le> (2::real) powr of_int k" using jk by simp
  also have "\<dots> = of_int (2 ^ 52) * 2 powr of_int (k - 52)" by (rule powr_split)
  also have "\<dots> \<le> of_int (round_even m) * 2 powr of_int (k - 52)"
    using r by (intro mult_right_mono) simp_all
  also have "\<dots> = fl x" unfolding m_def using fl_binade [OF k] by simp
  finally show ?thesis .
qed

lemma fl_le_powr:
  assumes "0 < x" "x \<le> 2 powr of_int j"
  shows "fl x \<le> 2 powr of_int j"
proof -
  from binade_exists [OF assms(1)] obtain k where
    k: "2 powr of_int k \<le> x" "x < 2 powr of_int (k + 1)" by blast
  from assms(2) k(1) have "2 powr (of_int k :: real) \<le> 2 powr of_int j" by linarith
  then have "(of_int k :: real) \<le> of_int j" by simp
  then have kj: "k \<le> j" by linarith
  define d where "d = nat (j - k + 52)"
  have d: "int d = j - k + 52" unfolding d_def using kj by simp
  define m where "m = x * 2 powr of_int (52 - k)"
  have e1: "(of_int (j - k + 52) :: real) = real d" unfolding d [symmetric] by simp
  have pw: "(2::real) powr of_int (j - k + 52) = of_int (2 ^ d)"
  proof -
    have "(2::real) powr of_int (j - k + 52) = 2 powr real d" by (simp only: e1)
    also have "\<dots> = 2 ^ d" by (rule powr_realpow) simp
    finally show ?thesis by simp
  qed
  have e2: "(of_int j :: real) + of_int (52 - k) = of_int (j - k + 52)" by simp
  have e3: "(of_int (j - k + 52) :: real) + of_int (k - 52) = of_int j" by simp
  have "m \<le> 2 powr of_int j * 2 powr of_int (52 - k)"
    unfolding m_def using assms(2) by (intro mult_right_mono) simp_all
  also have "\<dots> = 2 powr (of_int j + of_int (52 - k))" by (rule powr_add [symmetric])
  finally have "m \<le> of_int (2 ^ d)" unfolding e2 pw .
  then have r: "round_even m \<le> 2 ^ d" by (rule round_even_le)
  have "fl x = of_int (round_even m) * 2 powr of_int (k - 52)"
    unfolding m_def using fl_binade [OF k] by simp
  also have "\<dots> \<le> of_int (2 ^ d) * 2 powr of_int (k - 52)"
    using r by (intro mult_right_mono) simp_all
  also have "\<dots> = 2 powr of_int (j - k + 52) * 2 powr of_int (k - 52)" unfolding pw ..
  also have "\<dots> = 2 powr (of_int (j - k + 52) + of_int (k - 52))" by (rule powr_add [symmetric])
  finally show ?thesis unfolding e3 .
qed

lemma powr_int_forms:
  "(2::real) powr of_int (int n) = 2 ^ n" "(2::real) powr of_int (- int n) = 1 / 2 ^ n"
proof -
  show a: "(2::real) powr of_int (int n) = 2 ^ n" by (simp add: powr_realpow)
  have "(2::real) powr of_int (- int n) = 2 powr (- real n)" by simp
  also have "\<dots> = 1 / 2 powr real n" by (simp only: powr_minus_divide)
  also have "\<dots> = 1 / 2 ^ n" by (simp add: powr_realpow)
  finally show "(2::real) powr of_int (- int n) = 1 / 2 ^ n" .
qed

lemma fl_ge_power: "2 ^ n \<le> x \<Longrightarrow> 2 ^ n \<le> fl x"
  using fl_ge_powr [of "int n" x] by (simp only: powr_int_forms)

lemma fl_ge_inverse_power: "1 / 2 ^ n \<le> x \<Longrightarrow> 1 / 2 ^ n \<le> fl x"
  using fl_ge_powr [of "- int n" x] by (simp only: powr_int_forms)

lemma fl_le_power: "0 < x \<Longrightarrow> x \<le> 2 ^ n \<Longrightarrow> fl x \<le> 2 ^ n"
  using fl_le_powr [of x "int n"] by (simp only: powr_int_forms)

lemma fl_le_inverse_power: "0 < x \<Longrightarrow> x \<le> 1 / 2 ^ n \<Longrightarrow> fl x \<le> 1 / 2 ^ n"
  using fl_le_powr [of x "- int n"] by (simp only: powr_int_forms)

lemma in_range_nonneg: "in_range a b x \<Longrightarrow> 0 \<le> x"
proof -
  assume "in_range a b x"
  then have "x = 0 \<or> 1 / 2 ^ a \<le> x" by (auto simp: in_range_def)
  moreover have "(0::real) \<le> 1 / 2 ^ a" by simp
  ultimately show ?thesis by linarith
qed

lemma in_range_zero: "in_range a b 0"
  by (simp add: in_range_def)

lemma in_range_pos: "in_range a b x \<Longrightarrow> x \<noteq> 0 \<Longrightarrow> 1 / 2 ^ a \<le> x \<and> x \<le> 2 ^ b \<and> 0 < x"
proof -
  assume "in_range a b x" "x \<noteq> 0"
  then have r: "1 / 2 ^ a \<le> x" "x \<le> 2 ^ b" by (auto simp: in_range_def)
  have "(0::real) < 1 / 2 ^ a" by simp
  with r show ?thesis by linarith
qed

lemma in_rangeI: "1 / 2 ^ a \<le> x \<Longrightarrow> x \<le> 2 ^ b \<Longrightarrow> in_range a b x"
  by (simp add: in_range_def)

lemma in_range_weaken:
  assumes "in_range a b x" "a \<le> a'" "b \<le> b'"
  shows "in_range a' b' x"
proof (cases "x = 0")
  case True
  then show ?thesis by (simp add: in_range_def)
next
  case False
  from in_range_pos [OF assms(1) False] have r: "1 / 2 ^ a \<le> x" "x \<le> 2 ^ b" by simp_all
  have "(2::real) ^ a \<le> 2 ^ a'" using assms(2) by (intro power_increasing) simp_all
  then have "1 / (2::real) ^ a' \<le> 1 / 2 ^ a" by (intro divide_left_mono) simp_all
  moreover have "(2::real) ^ b \<le> 2 ^ b'" using assms(3) by (intro power_increasing) simp_all
  ultimately show ?thesis using r by (intro in_rangeI) linarith+
qed

lemma in_range_fl: "in_range a b x \<Longrightarrow> in_range a b (fl x)"
proof (cases "x = 0")
  case True
  then show ?thesis by (simp add: in_range_def fl_def)
next
  case False
  assume "in_range a b x"
  from in_range_pos [OF this False] have r: "1 / 2 ^ a \<le> x" "x \<le> 2 ^ b" "0 < x" by simp_all
  from r(1) have "1 / 2 ^ a \<le> fl x" by (rule fl_ge_inverse_power)
  moreover from r(3,2) have "fl x \<le> 2 ^ b" by (rule fl_le_power)
  ultimately show ?thesis by (rule in_rangeI)
qed

lemma fl_zero: "fl 0 = 0"
  by (simp add: fl_def)

lemma fl_ieee_in_range:
  assumes "in_range a b x" "a \<le> 1022" "b \<le> 1023"
  shows "fl_ieee x = Some (fl x)"
proof (cases "x = 0")
  case True
  then show ?thesis by (simp add: fl_ieee_def fl_zero)
next
  case False
  from in_range_weaken [OF assms] have w: "in_range 1022 1023 x" .
  from in_range_pos [OF w False] have r: "1 / 2 ^ 1022 \<le> x" "0 < x" by simp_all
  from in_range_fl [OF w] have f: "in_range 1022 1023 (fl x)" .
  from in_range_nonneg [OF f] have f0: "0 \<le> fl x" .
  have f1: "fl x \<le> 2 ^ 1023"
  proof (cases "fl x = 0")
    case True
    then show ?thesis by simp
  next
    case False
    from in_range_pos [OF f False] show ?thesis by simp
  qed
  have "(2::real) ^ 1023 < 2 ^ 1024" by (intro power_strict_increasing) simp_all
  with f1 have "fl x < 2 ^ 1024" by linarith
  with f0 r False show ?thesis by (simp add: fl_ieee_def)
qed

lemma in_range_mult:
  assumes "in_range a b x" "in_range c d y"
  shows "in_range (a + c) (b + d) (x * y)"
proof (cases "x = 0 \<or> y = 0")
  case True
  then show ?thesis by (auto simp: in_range_def)
next
  case False
  from in_range_pos [OF assms(1)] False have x: "1 / 2 ^ a \<le> x" "x \<le> 2 ^ b" "0 < x" by simp_all
  from in_range_pos [OF assms(2)] False have y: "1 / 2 ^ c \<le> y" "y \<le> 2 ^ d" "0 < y" by simp_all
  have "(1 / 2 ^ a) * (1 / 2 ^ c) \<le> x * y" using x y by (intro mult_mono) simp_all
  then have lo: "1 / 2 ^ (a + c) \<le> x * y" by (simp add: power_add)
  have "x * y \<le> 2 ^ b * 2 ^ d" using x y by (intro mult_mono) simp_all
  then have hi: "x * y \<le> 2 ^ (b + d)" by (simp add: power_add)
  from lo hi show ?thesis by (rule in_rangeI)
qed

lemma in_range_add:
  assumes "in_range a b x" "in_range a b y"
  shows "in_range a (b + 1) (x + y)"
proof (cases "x = 0 \<and> y = 0")
  case True
  then show ?thesis by (simp add: in_range_def)
next
  case False
  note x0 = in_range_nonneg [OF assms(1)] and y0 = in_range_nonneg [OF assms(2)]
  have xb: "x \<le> 2 ^ b"
    using in_range_pos [OF assms(1)] by (cases "x = 0") simp_all
  have yb: "y \<le> 2 ^ b"
    using in_range_pos [OF assms(2)] by (cases "y = 0") simp_all
  have lo: "1 / 2 ^ a \<le> x + y"
  proof (cases "x = 0")
    case True
    with False have "y \<noteq> 0" by simp
    from in_range_pos [OF assms(2) this] x0 show ?thesis by linarith
  next
    case False
    from in_range_pos [OF assms(1) this] y0 show ?thesis by linarith
  qed
  have hi: "x + y \<le> 2 ^ (b + 1)" using xb yb by simp
  from lo hi show ?thesis by (rule in_rangeI)
qed

lemma in_range_sqrt:
  assumes "in_range (2 * a) (2 * b) x"
  shows "in_range a b (sqrt x)"
proof (cases "x = 0")
  case True
  then show ?thesis by (simp add: in_range_def)
next
  case False
  from in_range_pos [OF assms False] have x: "1 / 2 ^ (2 * a) \<le> x" "x \<le> 2 ^ (2 * b)" by simp_all
  have pa: "(2::real) ^ (2 * a) = (2 ^ a)\<^sup>2" by (simp add: power_mult power2_eq_square flip: power_add mult_2)
  have pb: "(2::real) ^ (2 * b) = (2 ^ b)\<^sup>2" by (simp add: power_mult power2_eq_square flip: power_add mult_2)
  have "sqrt (1 / 2 ^ (2 * a)) \<le> sqrt x" using x(1) by simp
  moreover have "sqrt (1 / 2 ^ (2 * a)) = 1 / 2 ^ a" unfolding pa by (simp add: real_sqrt_divide)
  ultimately have lo: "1 / 2 ^ a \<le> sqrt x" by simp
  have "sqrt x \<le> sqrt (2 ^ (2 * b))" using x(2) by simp
  moreover have "sqrt (2 ^ (2 * b)) = 2 ^ b" unfolding pb by simp
  ultimately have hi: "sqrt x \<le> 2 ^ b" by simp
  from lo hi show ?thesis by (rule in_rangeI)
qed

lemma in_range_divide:
  assumes "in_range a b x" "1 / 2 ^ c \<le> y" "y \<le> 2 ^ d"
  shows "in_range (a + d) (b + c) (x / y)"
proof (cases "x = 0")
  case True
  then show ?thesis by (simp add: in_range_def)
next
  case False
  from in_range_pos [OF assms(1) False] have x: "1 / 2 ^ a \<le> x" "x \<le> 2 ^ b" "0 < x" by simp_all
  have "(0::real) < 1 / 2 ^ c" by simp
  with assms(2) have y: "0 < y" by linarith
  have "(1 / 2 ^ a) / 2 ^ d \<le> x / y"
  proof (rule frac_le)
    show "0 \<le> x" using x(3) by simp
    show "1 / 2 ^ a \<le> x" by (rule x(1))
    show "0 < y" by (rule y)
    show "y \<le> 2 ^ d" by (rule assms(3))
  qed
  then have lo: "1 / 2 ^ (a + d) \<le> x / y" by (simp add: power_add)
  have "x / y \<le> 2 ^ b / (1 / 2 ^ c)"
  proof (rule frac_le)
    show "(0::real) \<le> 2 ^ b" by simp
    show "x \<le> 2 ^ b" by (rule x(2))
    show "(0::real) < 1 / 2 ^ c" by simp
    show "1 / 2 ^ c \<le> y" by (rule assms(2))
  qed
  then have hi: "x / y \<le> 2 ^ (b + c)" by (simp add: power_add)
  from lo hi show ?thesis by (rule in_rangeI)
qed

lemma rounded_sum_lower:
  assumes "\<forall>t\<in>set ts. in_range a b t" "s = 0 \<or> 1 / 2 ^ a \<le> s"
  shows "foldl (\<lambda>s t. fl (s + fl t)) s ts = 0 \<or> 1 / 2 ^ a \<le> foldl (\<lambda>s t. fl (s + fl t)) s ts"
  using assms
proof (induction ts arbitrary: s)
  case Nil
  then show ?case by simp
next
  case (Cons t ts)
  from Cons.prems(1) have t: "in_range a b t" and ts: "\<forall>t\<in>set ts. in_range a b t" by simp_all
  have "(0::real) \<le> 1 / 2 ^ a" by simp
  with Cons.prems(2) have s0: "0 \<le> s" by linarith
  note f = in_range_fl [OF t]
  note f0 = in_range_nonneg [OF f]
  have "fl (s + fl t) = 0 \<or> 1 / 2 ^ a \<le> fl (s + fl t)"
  proof (cases "s + fl t = 0")
    case True
    then show ?thesis by (simp add: fl_zero)
  next
    case False
    have "1 / 2 ^ a \<le> s + fl t"
    proof (cases "s = 0")
      case True
      with False have "fl t \<noteq> 0" by simp
      from in_range_pos [OF f this] True show ?thesis by simp
    next
      case False
      with Cons.prems(2) have "1 / 2 ^ a \<le> s" by simp
      with f0 show ?thesis by linarith
    qed
    then have "1 / 2 ^ a \<le> fl (s + fl t)" by (rule fl_ge_inverse_power)
    then show ?thesis by simp
  qed
  from Cons.IH [OF ts this] show ?case by simp
qed

lemma sum_list_le:
  fixes ts :: "real list"
  shows "\<forall>t\<in>set ts. t \<le> c \<Longrightarrow> sum_list ts \<le> real (length ts) * c"
  by (induction ts) (auto simp: algebra_simps)

lemma rounding_growth:
  assumes "n \<le> 384"
  shows "(1 + unit_roundoff) ^ (2 * n) \<le> 2"
proof -
  let ?h = "1 + unit_roundoff" and ?l = "1 - unit_roundoff"
  have h: "1 \<le> ?h" and l0: "0 < ?l" and l1: "?l \<le> 1" using unit_roundoff_range by simp_all
  have "?h ^ (2 * n) \<le> ?h ^ (2 * n + 6)" using h by (intro power_increasing) simp_all
  also have "\<dots> \<le> ?h ^ (2 * n + 6) / ?l ^ (2 * n + 3)"
  proof -
    have "?l ^ (2 * n + 3) \<le> 1" using l0 l1 by (intro power_le_one) simp_all
    moreover have "0 < ?l ^ (2 * n + 3)" using l0 by (rule zero_less_power)
    moreover have "0 \<le> ?h ^ (2 * n + 6)" using h by simp
    ultimately show ?thesis by (simp add: le_divide_eq mult_left_le)
  qed
  also have "\<dots> \<le> 1 + 1 / 2 ^ 41" using assms by (rule rounding_bound)
  also have "\<dots> \<le> 2" by simp
  finally show ?thesis .
qed

lemma rounded_sum_upper:
  assumes "\<forall>t\<in>set ts. in_range 400 400 t" "length ts \<le> 384"
  shows "foldl (\<lambda>s t. fl (s + fl t)) 0 ts \<le> 2 ^ 410"
proof -
  have nonneg: "\<forall>t\<in>set ts. 0 \<le> t" using assms(1) by (auto dest: in_range_nonneg)
  have le: "\<forall>t\<in>set ts. t \<le> 2 ^ 400"
  proof
    fix t
    assume "t \<in> set ts"
    with assms(1) have r: "in_range 400 400 t" by simp
    show "t \<le> 2 ^ 400" using in_range_pos [OF r] by (cases "t = 0") simp_all
  qed
  from rounded_sum_bounds [OF nonneg, of 0 0 0]
  have "foldl (\<lambda>s t. fl (s + fl t)) 0 ts \<le> (1 + unit_roundoff) ^ (2 * length ts) * sum_list ts"
    by simp
  also have "\<dots> \<le> 2 * (real (length ts) * 2 ^ 400)"
  proof (rule mult_mono)
    show "(1 + unit_roundoff) ^ (2 * length ts) \<le> 2" using assms(2) by (rule rounding_growth)
    show "sum_list ts \<le> real (length ts) * 2 ^ 400" using le by (rule sum_list_le)
    show "(0::real) \<le> 2" by simp
    show "0 \<le> sum_list ts" using nonneg by (intro sum_list_nonneg) simp
  qed
  also have "\<dots> \<le> 2 * (384 * 2 ^ 400)"
    using assms(2) by (intro mult_left_mono mult_right_mono) simp_all
  also have "\<dots> \<le> 2 ^ 410" by simp
  finally show ?thesis .
qed

lemma rounded_sum_in_range:
  assumes "\<forall>t\<in>set ts. in_range 400 400 t" "length ts \<le> 384"
  shows "in_range 400 410 (foldl (\<lambda>s t. fl (s + fl t)) 0 ts)"
  using rounded_sum_lower [OF assms(1), of 0] rounded_sum_upper [OF assms]
  by (auto simp: in_range_def)

lemma accumulate_double_step:
  assumes "in_range 200 200 a" "in_range 200 200 b"
    "in_range 400 410 d" "in_range 400 410 p" "in_range 400 410 q"
  shows "accumulate_double (d, p, q) (a, b)
     = Some (fl (d + fl (a * b)), fl (p + fl (a * a)), fl (q + fl (b * b)))"
proof -
  have step: "fl_ieee t = Some (fl t) \<and> fl_ieee (s + fl t) = Some (fl (s + fl t))"
    if t: "in_range 400 400 t" and s: "in_range 400 410 s" for s t
  proof -
    from t have 1: "fl_ieee t = Some (fl t)" by (rule fl_ieee_in_range) simp_all
    from in_range_fl [OF t] have "in_range 400 410 (fl t)" by (rule in_range_weaken) simp_all
    with s have "in_range 400 (410 + 1) (s + fl t)" by (rule in_range_add)
    then have 2: "fl_ieee (s + fl t) = Some (fl (s + fl t))" by (rule fl_ieee_in_range) simp_all
    from 1 2 show ?thesis by simp
  qed
  from in_range_mult [OF assms(1,2)] have ab: "in_range 400 400 (a * b)" by simp
  from in_range_mult [OF assms(1,1)] have aa: "in_range 400 400 (a * a)" by simp
  from in_range_mult [OF assms(2,2)] have bb: "in_range 400 400 (b * b)" by simp
  from step [OF ab assms(3)] step [OF aa assms(4)] step [OF bb assms(5)]
  show ?thesis by (simp add: accumulate_double_def)
qed

lemma accumulate_double_loop:
  assumes "\<forall>p\<in>set ps. in_range 200 200 (fst p) \<and> in_range 200 200 (snd p)" "length ps \<le> 384"
  shows "foldl (\<lambda>acc pair. acc \<bind> (\<lambda>state. accumulate_double state pair)) (Some (0, 0, 0)) ps
     = Some (foldl (\<lambda>s t. fl (s + fl t)) 0 (map (\<lambda>p. fst p * snd p) ps),
             foldl (\<lambda>s t. fl (s + fl t)) 0 (map (\<lambda>p. fst p * fst p) ps),
             foldl (\<lambda>s t. fl (s + fl t)) 0 (map (\<lambda>p. snd p * snd p) ps))"
  using assms
proof (induction ps rule: rev_induct)
  case Nil
  then show ?case by simp
next
  case (snoc x xs)
  obtain a b where x: "x = (a, b)" by (cases x)
  from snoc.prems have xs: "\<forall>p\<in>set xs. in_range 200 200 (fst p) \<and> in_range 200 200 (snd p)"
    and len: "length xs \<le> 384" and a: "in_range 200 200 a" and b: "in_range 200 200 b"
    by (simp_all add: x)
  have terms: "\<forall>t\<in>set (map (\<lambda>p. fst p * snd p) xs). in_range 400 400 t"
      "\<forall>t\<in>set (map (\<lambda>p. fst p * fst p) xs). in_range 400 400 t"
      "\<forall>t\<in>set (map (\<lambda>p. snd p * snd p) xs). in_range 400 400 t"
    using xs in_range_mult [of 200 200 _ 200 200] by auto
  have d: "in_range 400 410 (foldl (\<lambda>s t. fl (s + fl t)) 0 (map (\<lambda>p. fst p * snd p) xs))"
    using terms(1) len by (intro rounded_sum_in_range) simp_all
  have p: "in_range 400 410 (foldl (\<lambda>s t. fl (s + fl t)) 0 (map (\<lambda>p. fst p * fst p) xs))"
    using terms(2) len by (intro rounded_sum_in_range) simp_all
  have q: "in_range 400 410 (foldl (\<lambda>s t. fl (s + fl t)) 0 (map (\<lambda>p. snd p * snd p) xs))"
    using terms(3) len by (intro rounded_sum_in_range) simp_all
  show ?case
    by (simp add: snoc.IH [OF xs len] x accumulate_double_step [OF a b d p q])
qed

lemma ratio_in_range:
  fixes na nb :: nat
  assumes "na \<le> 384" "nb \<le> 384"
  shows "in_range 9 0 (real (min na nb) / real (max (max na nb) 1))"
proof (cases "min na nb = 0")
  case True
  then show ?thesis by (simp add: in_range_def)
next
  case False
  then have m: "1 \<le> real (min na nb)" by simp
  have M: "real (max (max na nb) 1) \<le> 512" using assms by simp
  have M0: "0 < real (max (max na nb) 1)" by simp
  have "1 / 512 \<le> real (min na nb) / real (max (max na nb) 1)"
    using _ m M0 M by (rule frac_le) simp
  then have lo: "1 / 2 ^ 9 \<le> real (min na nb) / real (max (max na nb) 1)" by simp
  have "real (min na nb) \<le> real (max (max na nb) 1)" by simp
  then have "real (min na nb) / real (max (max na nb) 1) \<le> 1" using M0 by (simp only: divide_le_eq_1_pos)
  then have hi: "real (min na nb) / real (max (max na nb) 1) \<le> 2 ^ 0" by simp
  from lo hi show ?thesis by (rule in_rangeI)
qed

lemma factor_in_range:
  assumes "in_range 9 0 ratio"
  shows "fl_ieee ratio = Some (fl ratio)"
    and "fl_ieee 0.3 = Some (fl 0.3)"
    and "fl_ieee (fl 0.3 * fl ratio) = Some (fl (fl 0.3 * fl ratio))"
    and "fl_ieee 0.7 = Some (fl 0.7)"
    and "fl_ieee (fl 0.7 + fl (fl 0.3 * fl ratio)) = Some (fl (fl 0.7 + fl (fl 0.3 * fl ratio)))"
    and "in_range 11 1 (fl (fl 0.7 + fl (fl 0.3 * fl ratio)))"
proof -
  show "fl_ieee ratio = Some (fl ratio)" using assms by (rule fl_ieee_in_range) simp_all
  have c3: "in_range 2 0 0.3" by (rule in_rangeI) simp_all
  show "fl_ieee 0.3 = Some (fl 0.3)" using c3 by (rule fl_ieee_in_range) simp_all
  from in_range_mult [OF in_range_fl [OF c3] in_range_fl [OF assms]]
  have w: "in_range 11 0 (fl 0.3 * fl ratio)" by simp
  show "fl_ieee (fl 0.3 * fl ratio) = Some (fl (fl 0.3 * fl ratio))"
    using w by (rule fl_ieee_in_range) simp_all
  have c7: "in_range 1 0 0.7" by (rule in_rangeI) simp_all
  show "fl_ieee 0.7 = Some (fl 0.7)" using c7 by (rule fl_ieee_in_range) simp_all
  from in_range_fl [OF c7] have c7': "in_range 11 0 (fl 0.7)" by (rule in_range_weaken) simp_all
  from in_range_add [OF c7' in_range_fl [OF w]]
  have s: "in_range 11 1 (fl 0.7 + fl (fl 0.3 * fl ratio))" by simp
  show "fl_ieee (fl 0.7 + fl (fl 0.3 * fl ratio)) = Some (fl (fl 0.7 + fl (fl 0.3 * fl ratio)))"
    using s by (rule fl_ieee_in_range) simp_all
  show "in_range 11 1 (fl (fl 0.7 + fl (fl 0.3 * fl ratio)))" using s by (rule in_range_fl)
qed

lemma quotient_in_range:
  assumes "in_range 400 410 D" "in_range 400 410 P" "in_range 400 410 Q" "P \<noteq> 0" "Q \<noteq> 0"
  shows "fl_ieee (sqrt P) = Some (fl (sqrt P))"
    and "fl_ieee (sqrt Q) = Some (fl (sqrt Q))"
    and "fl_ieee (fl (sqrt P) * fl (sqrt Q)) = Some (fl (fl (sqrt P) * fl (sqrt Q)))"
    and "fl_ieee (D / fl (fl (sqrt P) * fl (sqrt Q))) = Some (fl (D / fl (fl (sqrt P) * fl (sqrt Q))))"
    and "in_range 810 810 (fl (D / fl (fl (sqrt P) * fl (sqrt Q))))"
proof -
  have root: "in_range 200 205 (sqrt X) \<and> sqrt X \<noteq> 0" if X: "in_range 400 410 X" "X \<noteq> 0" for X
  proof -
    from X(1) have "in_range (2 * 200) (2 * 205) X" by simp
    then have "in_range 200 205 (sqrt X)" by (rule in_range_sqrt)
    with X(2) show ?thesis by simp
  qed
  note rP = root [OF assms(2,4)] and rQ = root [OF assms(3,5)]
  from rP have rP1: "in_range 200 205 (sqrt P)" by simp
  from rQ have rQ1: "in_range 200 205 (sqrt Q)" by simp
  show "fl_ieee (sqrt P) = Some (fl (sqrt P))" using rP1 by (rule fl_ieee_in_range) simp_all
  show "fl_ieee (sqrt Q) = Some (fl (sqrt Q))" using rQ1 by (rule fl_ieee_in_range) simp_all
  from in_range_pos [OF rP1] rP have "1 / 2 ^ 200 \<le> sqrt P" by simp
  then have sA: "1 / 2 ^ 200 \<le> fl (sqrt P)" by (rule fl_ge_inverse_power)
  from in_range_pos [OF rQ1] rQ have "1 / 2 ^ 200 \<le> sqrt Q" by simp
  then have sB: "1 / 2 ^ 200 \<le> fl (sqrt Q)" by (rule fl_ge_inverse_power)
  from in_range_mult [OF in_range_fl [OF rP1] in_range_fl [OF rQ1]]
  have prod: "in_range 400 410 (fl (sqrt P) * fl (sqrt Q))" by simp
  show "fl_ieee (fl (sqrt P) * fl (sqrt Q)) = Some (fl (fl (sqrt P) * fl (sqrt Q)))"
    using prod by (rule fl_ieee_in_range) simp_all
  have pos200: "(0::real) < 1 / 2 ^ 200" by simp
  from pos200 sA have "0 < fl (sqrt P)" by linarith
  moreover from pos200 sB have "0 < fl (sqrt Q)" by linarith
  ultimately have "0 < fl (sqrt P) * fl (sqrt Q)" by (rule mult_pos_pos)
  then have nz: "fl (sqrt P) * fl (sqrt Q) \<noteq> 0" by (rule less_imp_neq [THEN not_sym])
  from in_range_fl [OF prod] have den: "in_range 400 410 (fl (fl (sqrt P) * fl (sqrt Q)))" .
  from in_range_pos [OF prod nz] have "1 / 2 ^ 400 \<le> fl (sqrt P) * fl (sqrt Q)" by simp
  then have lo: "1 / 2 ^ 400 \<le> fl (fl (sqrt P) * fl (sqrt Q))" by (rule fl_ge_inverse_power)
  have "(0::real) < 1 / 2 ^ 400" by simp
  with lo have "fl (fl (sqrt P) * fl (sqrt Q)) \<noteq> 0" by linarith
  from in_range_pos [OF den this] have hi: "fl (fl (sqrt P) * fl (sqrt Q)) \<le> 2 ^ 410" by simp
  from in_range_divide [OF assms(1) lo hi]
  have quot: "in_range 810 810 (D / fl (fl (sqrt P) * fl (sqrt Q)))" by simp
  show "fl_ieee (D / fl (fl (sqrt P) * fl (sqrt Q))) = Some (fl (D / fl (fl (sqrt P) * fl (sqrt Q))))"
    using quot by (rule fl_ieee_in_range) simp_all
  show "in_range 810 810 (fl (D / fl (fl (sqrt P) * fl (sqrt Q))))" using quot by (rule in_range_fl)
qed

lemma rounded_sums:
  assumes "\<forall>p\<in>set ps. 0 \<le> fst p \<and> 0 \<le> snd p"
  defines "D \<equiv> foldl (\<lambda>s t. fl (s + fl t)) 0 (map (\<lambda>p. fst p * snd p) ps)"
    and "P \<equiv> foldl (\<lambda>s t. fl (s + fl t)) 0 (map (\<lambda>p. fst p * fst p) ps)"
    and "Q \<equiv> foldl (\<lambda>s t. fl (s + fl t)) 0 (map (\<lambda>p. snd p * snd p) ps)"
  shows "0 \<le> D" "D \<le> (1 + unit_roundoff) ^ (2 * length ps) * dot_sum ps"
    "(1 - unit_roundoff) ^ (2 * length ps) * left_sum ps \<le> P"
    "P \<le> (1 + unit_roundoff) ^ (2 * length ps) * left_sum ps"
    "(1 - unit_roundoff) ^ (2 * length ps) * right_sum ps \<le> Q"
    "Q \<le> (1 + unit_roundoff) ^ (2 * length ps) * right_sum ps"
proof -
  have d: "\<forall>t\<in>set (map (\<lambda>p. fst p * snd p) ps). (0::real) \<le> t" using assms(1) by auto
  have p: "\<forall>t\<in>set (map (\<lambda>p. fst p * fst p) ps). (0::real) \<le> t" by auto
  have q: "\<forall>t\<in>set (map (\<lambda>p. snd p * snd p) ps). (0::real) \<le> t" by auto
  note bd = rounded_sum_bounds [OF d, of 0 0 0, simplified]
  note bp = rounded_sum_bounds [OF p, of 0 0 0, simplified]
  note bq = rounded_sum_bounds [OF q, of 0 0 0, simplified]
  have l0: "0 \<le> (1 - unit_roundoff) ^ (2 * length ps)" using unit_roundoff_range by simp
  have "0 \<le> dot_sum ps" using assms(1) by (rule dot_sum_nonneg)
  then have "0 \<le> (1 - unit_roundoff) ^ (2 * length ps) * dot_sum ps"
    using l0 by (intro mult_nonneg_nonneg)
  with bd show "0 \<le> D" by (simp add: dot_sum_def D_def)
  from bd show "D \<le> (1 + unit_roundoff) ^ (2 * length ps) * dot_sum ps"
    by (simp add: dot_sum_def D_def)
  from bp show "(1 - unit_roundoff) ^ (2 * length ps) * left_sum ps \<le> P"
    "P \<le> (1 + unit_roundoff) ^ (2 * length ps) * left_sum ps"
    by (simp_all add: left_sum_def P_def)
  from bq show "(1 - unit_roundoff) ^ (2 * length ps) * right_sum ps \<le> Q"
    "Q \<le> (1 + unit_roundoff) ^ (2 * length ps) * right_sum ps"
    by (simp_all add: right_sum_def Q_def)
qed

lemma rounded_score_bounds:
  fixes ps :: "(real \<times> real) list" and nA nB :: nat
  assumes nonneg: "\<forall>p\<in>set ps. 0 \<le> fst p \<and> 0 \<le> snd p"
  defines "n \<equiv> length ps"
    and "D \<equiv> foldl (\<lambda>s t. fl (s + fl t)) 0 (map (\<lambda>p. fst p * snd p) ps)"
    and "P \<equiv> foldl (\<lambda>s t. fl (s + fl t)) 0 (map (\<lambda>p. fst p * fst p) ps)"
    and "Q \<equiv> foldl (\<lambda>s t. fl (s + fl t)) 0 (map (\<lambda>p. snd p * snd p) ps)"
    and "factor \<equiv> fl (fl 0.7 + fl (fl 0.3 * fl (real (min nA nB) / real (max (max nA nB) 1))))"
  assumes nz: "P \<noteq> 0" "Q \<noteq> 0"
  shows "0 \<le> fl (fl (D / fl (fl (sqrt P) * fl (sqrt Q))) * factor)"
    and "fl (fl (D / fl (fl (sqrt P) * fl (sqrt Q))) * factor)
           \<le> (1 + unit_roundoff) ^ (2 * n + 6) / (1 - unit_roundoff) ^ (2 * n + 3)"
proof -
  let ?h = "1 + unit_roundoff" and ?l = "1 - unit_roundoff"
  have h: "1 \<le> ?h" and l0: "0 < ?l" and l1: "?l \<le> 1" using unit_roundoff_range by simp_all
  have h0: "0 < ?h" using h by linarith
  note s = rounded_sums [OF nonneg, folded D_def P_def Q_def n_def]
  note D0 = s(1) and D1 = s(2) and P0 = s(3) and P1 = s(4) and Q0 = s(5) and Q1 = s(6)
  define bound where "bound = ?h ^ (2 * n + 6) / ?l ^ (2 * n + 3)"
  let ?Pr = "left_sum ps" and ?Qr = "right_sum ps" and ?Dr = "dot_sum ps"
  have Pr0: "0 \<le> ?Pr" by (rule left_sum_nonneg)
  have Qr0: "0 \<le> ?Qr" by (rule right_sum_nonneg)
  have Dr0: "0 \<le> ?Dr" using nonneg by (rule dot_sum_nonneg)
  have "0 \<le> ?l ^ (2 * n) * ?Pr" using l0 Pr0 by simp
  with P0 nz(1) have Ppos: "0 < P" by linarith
  have "0 \<le> ?l ^ (2 * n) * ?Qr" using l0 Qr0 by simp
  with Q0 nz(2) have Qpos: "0 < Q" by linarith
  have Prpos: "0 < ?Pr"
  proof (rule ccontr)
    assume "\<not> 0 < ?Pr"
    with Pr0 have "?Pr = 0" by linarith
    with P1 Ppos show False by simp
  qed
  have Qrpos: "0 < ?Qr"
  proof (rule ccontr)
    assume "\<not> 0 < ?Qr"
    with Qr0 have "?Qr = 0" by linarith
    with Q1 Qpos show False by simp
  qed
  define S where "S = sqrt ?Pr * sqrt ?Qr"
  have Spos: "0 < S" unfolding S_def using Prpos Qrpos by simp
  have "?Dr\<^sup>2 \<le> ?Pr * ?Qr" by (rule cauchy_schwarz)
  also have "\<dots> = S\<^sup>2" unfolding S_def using Pr0 Qr0 by (simp add: power_mult_distrib)
  finally have "?Dr\<^sup>2 \<le> S\<^sup>2" .
  then have DS: "?Dr \<le> S" using less_imp_le [OF Spos] by (rule power2_le_imp_le)
  define sA where "sA = fl (sqrt P)"
  define sB where "sB = fl (sqrt Q)"
  define den where "den = fl (sA * sB)"
  have rA: "?l ^ n * sqrt ?Pr \<le> sqrt P" using less_imp_le [OF l0] P0 by (rule sqrt_scaled)
  have rB: "?l ^ n * sqrt ?Qr \<le> sqrt Q" using less_imp_le [OF l0] Q0 by (rule sqrt_scaled)
  have "?l ^ (n + 1) * sqrt ?Pr = ?l * (?l ^ n * sqrt ?Pr)" by simp
  also have "\<dots> \<le> ?l * sqrt P" using rA l0 by (intro mult_left_mono) simp_all
  also have "\<dots> \<le> sA" unfolding sA_def using Ppos by (intro fl_ge) simp
  finally have sA: "?l ^ (n + 1) * sqrt ?Pr \<le> sA" .
  have "?l ^ (n + 1) * sqrt ?Qr = ?l * (?l ^ n * sqrt ?Qr)" by simp
  also have "\<dots> \<le> ?l * sqrt Q" using rB l0 by (intro mult_left_mono) simp_all
  also have "\<dots> \<le> sB" unfolding sB_def using Qpos by (intro fl_ge) simp
  finally have sB: "?l ^ (n + 1) * sqrt ?Qr \<le> sB" .
  have lp: "0 \<le> ?l ^ (n + 1)" using l0 by (intro zero_le_power) simp
  have sA0: "0 \<le> ?l ^ (n + 1) * sqrt ?Pr" using lp Pr0 by (intro mult_nonneg_nonneg) simp_all
  have sB0: "0 \<le> ?l ^ (n + 1) * sqrt ?Qr" using lp Qr0 by (intro mult_nonneg_nonneg) simp_all
  from sA0 sA have sApos: "0 \<le> sA" by linarith
  from sB0 sB have sBpos: "0 \<le> sB" by linarith
  have prod: "(?l ^ (n + 1) * sqrt ?Pr) * (?l ^ (n + 1) * sqrt ?Qr) \<le> sA * sB"
    using sA sB sA0 sB0 by (rule mult_mono')
  have "2 * n + 3 = 1 + ((n + 1) + (n + 1))" by simp
  then have "?l ^ (2 * n + 3) = ?l ^ (1 + ((n + 1) + (n + 1)))" by (rule arg_cong)
  also have "\<dots> = ?l * (?l ^ (n + 1) * ?l ^ (n + 1))" by (simp only: power_add power_one_right)
  finally have pw: "?l ^ (2 * n + 3) = ?l * (?l ^ (n + 1) * ?l ^ (n + 1))" .
  have "?l ^ (2 * n + 3) * S = ?l * ((?l ^ (n + 1) * sqrt ?Pr) * (?l ^ (n + 1) * sqrt ?Qr))"
    unfolding S_def pw by (simp only: mult.assoc mult.left_commute mult.commute)
  also have "\<dots> \<le> ?l * (sA * sB)" using prod l0 by (intro mult_left_mono) simp_all
  also have "\<dots> \<le> den" unfolding den_def using sApos sBpos by (intro fl_ge) simp
  finally have den: "?l ^ (2 * n + 3) * S \<le> den" .
  have lS: "0 < ?l ^ (2 * n + 3) * S" using l0 Spos by simp
  with den have denpos: "0 < den" by linarith
  define sim where "sim = fl (D / den)"
  have x0: "0 \<le> D / den" using D0 denpos by simp
  have "D \<le> ?h ^ (2 * n) * ?Dr" by (rule D1)
  also have "\<dots> \<le> ?h ^ (2 * n) * S" using DS h0 by (intro mult_left_mono) simp_all
  finally have DhS: "D \<le> ?h ^ (2 * n) * S" .
  have hS0: "0 \<le> ?h ^ (2 * n) * S" using h0 Spos by simp
  have "D / den \<le> (?h ^ (2 * n) * S) / (?l ^ (2 * n + 3) * S)"
    using hS0 DhS lS den by (rule frac_le)
  also have "\<dots> = ?h ^ (2 * n) / ?l ^ (2 * n + 3)" using Spos by simp
  finally have x1: "D / den \<le> ?h ^ (2 * n) / ?l ^ (2 * n + 3)" .
  have sim0: "0 \<le> sim" unfolding sim_def using x0 by (rule fl_nonneg)
  have "sim \<le> ?h * (D / den)" unfolding sim_def using x0 by (rule fl_le)
  also have "\<dots> \<le> ?h * (?h ^ (2 * n) / ?l ^ (2 * n + 3))"
    using x1 h0 by (intro mult_left_mono) simp_all
  also have "\<dots> = ?h ^ (2 * n + 1) / ?l ^ (2 * n + 3)" by simp
  finally have sim1: "sim \<le> ?h ^ (2 * n + 1) / ?l ^ (2 * n + 3)" .
  have f0: "0 \<le> factor" unfolding factor_def by (rule factor_bounds)
  have f1: "factor \<le> ?h ^ 4" unfolding factor_def by (rule factor_bounds)
  have val: "fl (fl (D / fl (fl (sqrt P) * fl (sqrt Q))) * factor) = fl (sim * factor)"
    unfolding sim_def den_def sA_def sB_def ..
  have sf0: "0 \<le> sim * factor" using sim0 f0 by (rule mult_nonneg_nonneg)
  have q0: "0 \<le> ?h ^ (2 * n + 1) / ?l ^ (2 * n + 3)" using h0 l0 by simp
  have sf1: "sim * factor \<le> (?h ^ (2 * n + 1) / ?l ^ (2 * n + 3)) * ?h ^ 4"
    using sim1 f1 q0 f0 by (rule mult_mono)
  have "fl (sim * factor) \<le> ?h * (sim * factor)" using sf0 by (rule fl_le)
  also have "\<dots> \<le> ?h * ((?h ^ (2 * n + 1) / ?l ^ (2 * n + 3)) * ?h ^ 4)"
    using sf1 h0 by (intro mult_left_mono) simp_all
  also have "\<dots> = (?h ^ 1 * ?h ^ (2 * n + 1) * ?h ^ 4) / ?l ^ (2 * n + 3)" by simp
  also have "?h ^ 1 * ?h ^ (2 * n + 1) * ?h ^ 4 = ?h ^ (1 + (2 * n + 1) + 4)"
    by (simp only: power_add)
  also have "1 + (2 * n + 1) + 4 = 2 * n + 6" by simp
  finally have "fl (sim * factor) \<le> ?h ^ (2 * n + 6) / ?l ^ (2 * n + 3)" .
  then show "fl (fl (D / fl (fl (sqrt P) * fl (sqrt Q))) * factor)
           \<le> ?h ^ (2 * n + 6) / ?l ^ (2 * n + 3)" unfolding val .
  show "0 \<le> fl (fl (D / fl (fl (sqrt P) * fl (sqrt Q))) * factor)"
    unfolding val using sf0 by (rule fl_nonneg)
qed

lemma cosineSimilarity_double_value:
  assumes "\<forall>x\<in>set vecA. in_range 200 200 x" "\<forall>x\<in>set vecB. in_range 200 200 x"
    "length vecA \<le> 384" "length vecB \<le> 384"
  defines "ps \<equiv> zip vecA vecB"
  defines "D \<equiv> foldl (\<lambda>s t. fl (s + fl t)) 0 (map (\<lambda>p. fst p * snd p) ps)"
    and "P \<equiv> foldl (\<lambda>s t. fl (s + fl t)) 0 (map (\<lambda>p. fst p * fst p) ps)"
    and "Q \<equiv> foldl (\<lambda>s t. fl (s + fl t)) 0 (map (\<lambda>p. snd p * snd p) ps)"
    and "nA \<equiv> length (filter (\<lambda>v. v > 0) vecA)"
    and "nB \<equiv> length (filter (\<lambda>v. v > 0) vecB)"
  shows "cosineSimilarity_double vecA vecB
     = Some (if P = 0 \<or> Q = 0 then 0
             else fl (fl (D / fl (fl (sqrt P) * fl (sqrt Q)))
                    * fl (fl 0.7 + fl (fl 0.3 * fl (real (min nA nB) / real (max (max nA nB) 1))))))"
proof -
  have pairs: "\<forall>p\<in>set ps. in_range 200 200 (fst p) \<and> in_range 200 200 (snd p)"
    unfolding ps_def using assms(1,2) by (auto dest: set_zip_leftD set_zip_rightD)
  have len: "length ps \<le> 384" unfolding ps_def using assms(3) by simp
  have loop: "foldl (\<lambda>acc pair. acc \<bind> (\<lambda>state. accumulate_double state pair)) (Some (0, 0, 0))
      (zip vecA vecB) = Some (D, P, Q)"
    using accumulate_double_loop [OF pairs len] unfolding D_def P_def Q_def ps_def .
  have terms: "\<forall>t\<in>set (map (\<lambda>p. fst p * snd p) ps). in_range 400 400 t"
      "\<forall>t\<in>set (map (\<lambda>p. fst p * fst p) ps). in_range 400 400 t"
      "\<forall>t\<in>set (map (\<lambda>p. snd p * snd p) ps). in_range 400 400 t"
    using pairs in_range_mult [of 200 200 _ 200 200] by auto
  have d: "in_range 400 410 D" unfolding D_def using terms(1) len by (intro rounded_sum_in_range) simp_all
  have p: "in_range 400 410 P" unfolding P_def using terms(2) len by (intro rounded_sum_in_range) simp_all
  have q: "in_range 400 410 Q" unfolding Q_def using terms(3) len by (intro rounded_sum_in_range) simp_all
  have "nA \<le> length vecA" unfolding nA_def by (rule length_filter_le)
  with assms(3) have nA: "nA \<le> 384" by linarith
  have "nB \<le> length vecB" unfolding nB_def by (rule length_filter_le)
  with assms(4) have nB: "nB \<le> 384" by linarith
  note f = factor_in_range [OF ratio_in_range [OF nA nB]]
  show ?thesis
  proof (cases "P = 0 \<or> Q = 0")
    case True
    then show ?thesis unfolding cosineSimilarity_double_def loop by auto
  next
    case False
    then have nz: "P \<noteq> 0" "Q \<noteq> 0" by simp_all
    note g = quotient_in_range [OF d p q nz]
    from in_range_mult [OF g(5) f(6)]
    have "in_range 821 811 (fl (D / fl (fl (sqrt P) * fl (sqrt Q)))
        * fl (fl 0.7 + fl (fl 0.3 * fl (real (min nA nB) / real (max (max nA nB) 1)))))" by simp
    then have last: "fl_ieee (fl (D / fl (fl (sqrt P) * fl (sqrt Q)))
        * fl (fl 0.7 + fl (fl 0.3 * fl (real (min nA nB) / real (max (max nA nB) 1)))))
      = Some (fl (fl (D / fl (fl (sqrt P) * fl (sqrt Q)))
        * fl (fl 0.7 + fl (fl 0.3 * fl (real (min nA nB) / real (max (max nA nB) 1))))))"
      by (rule fl_ieee_in_range) simp_all
    show ?thesis
      unfolding cosineSimilarity_double_def loop
      using False g(1-4) f(1-5) last by (simp add: Let_def flip: nA_def nB_def)
  qed
qed

text \<open>
  C4, as the code has it. Take two vectors of at most 384 entries, the dimension of an
  embedding, each entry 0 or between \<open>2 ^ -200\<close> and \<open>2 ^ 200\<close>. Then every intermediate
  result of the function is 0 or a normal double, and the double returned lies between 0
  and \<open>1 + 2 ^ -41\<close>. The value of the same formula in exact arithmetic lies between 0
  and 1: the cosine is at most 1 by the Cauchy-Schwarz inequality, and the factor of the
  length ratio lies between 0.7 and 1.

  The doubles do not keep the upper bound 1. For \<open>a = b = [1, 1, 1]\<close> the three sums are
  3, the rounded root of 3 squared and rounded is \<open>3 - 2 ^ -51\<close>, the quotient rounds to
  \<open>1 + 2 ^ -52\<close>, the factor \<open>0.7 + 0.3 * 1\<close> rounds to 1, and the result is
  \<open>1 + 2 ^ -52\<close>, which is 1.0000000000000002.
\<close>

theorem cosineSimilarity_rounded_bounds:
  assumes "\<forall>x\<in>set vecA. x = 0 \<or> 1 / 2 ^ 200 \<le> x \<and> x \<le> 2 ^ 200"
    and "\<forall>x\<in>set vecB. x = 0 \<or> 1 / 2 ^ 200 \<le> x \<and> x \<le> 2 ^ 200"
    and "length vecA \<le> 384" and "length vecB \<le> 384"
  shows "(\<exists>c. cosineSimilarity_double vecA vecB = Some c \<and> 0 \<le> c \<and> c \<le> 1 + 1 / 2 ^ 41) \<and>
         (\<exists>s. cosineSimilarity (map Num vecA) (map Num vecB) = Num s \<and> 0 \<le> s \<and> s \<le> 1)"
proof -
  have a: "\<forall>x\<in>set vecA. in_range 200 200 x" using assms(1) by (simp add: in_range_def)
  have b: "\<forall>x\<in>set vecB. in_range 200 200 x" using assms(2) by (simp add: in_range_def)
  let ?ps = "zip vecA vecB"
  have nonneg: "\<forall>p\<in>set ?ps. 0 \<le> fst p \<and> 0 \<le> snd p"
  proof
    fix p
    assume p: "p \<in> set ?ps"
    obtain x y where xy: "p = (x, y)" by (cases p)
    from p xy have "x \<in> set vecA" "y \<in> set vecB"
      by (auto dest: set_zip_leftD set_zip_rightD)
    with a b have "in_range 200 200 x" "in_range 200 200 y" by simp_all
    then have "0 \<le> x" "0 \<le> y" by (auto dest: in_range_nonneg)
    then show "0 \<le> fst p \<and> 0 \<le> snd p" by (simp add: xy)
  qed
  have n: "length ?ps \<le> 384" using assms(3) by simp
  note v = cosineSimilarity_double_value [OF a b assms(3,4)]
  let ?P = "foldl (\<lambda>s t. fl (s + fl t)) 0 (map (\<lambda>p. fst p * fst p) ?ps)"
  let ?Q = "foldl (\<lambda>s t. fl (s + fl t)) 0 (map (\<lambda>p. snd p * snd p) ?ps)"
  have rounded: "\<exists>c. cosineSimilarity_double vecA vecB = Some c \<and> 0 \<le> c \<and> c \<le> 1 + 1 / 2 ^ 41"
  proof (cases "?P = 0 \<or> ?Q = 0")
    case True
    with v have "cosineSimilarity_double vecA vecB = Some 0" by simp
    then show ?thesis by simp
  next
    case False
    then have nz: "?P \<noteq> 0" "?Q \<noteq> 0" by simp_all
    note r = rounded_score_bounds [OF nonneg nz]
    note upper = order_trans [OF r(2) rounding_bound [OF n]]
    from r(1) upper v False show ?thesis by simp
  qed
  have "\<forall>x\<in>set (map Num vecA). \<exists>r\<ge>0. x = Num r"
    using a by (auto dest: in_range_nonneg)
  moreover have "\<forall>x\<in>set (map Num vecB). \<exists>r\<ge>0. x = Num r"
    using b by (auto dest: in_range_nonneg)
  ultimately have exact: "\<exists>s. cosineSimilarity (map Num vecA) (map Num vecB) = Num s \<and> 0 \<le> s \<and> s \<le> 1"
    by (rule cosineSimilarity_exact_bounds)
  from rounded exact show ?thesis by (rule conjI)
qed

theorem cosineSimilarity_rounded_bounds_witness:
  "(\<exists>c. cosineSimilarity_double [3, 4, 0] [4, 3] = Some c \<and> 0 \<le> c \<and> c \<le> 1 + 1 / 2 ^ 41) \<and>
   (\<exists>s. cosineSimilarity [Num 3, Num 4, Num 0] [Num 4, Num 3] = Num s \<and> 0 \<le> s \<and> s \<le> 1)"
  using cosineSimilarity_rounded_bounds [of "[3, 4, 0]" "[4, 3]"] by simp

theorem cosine_of_equal_vectors_counterexample:
  "cosineSimilarity_double [1, 1, 1] [1, 1, 1] = Some (1 + 1 / 2 ^ 52) \<and>
   \<not> 1 + 1 / 2 ^ 52 \<le> (1::real)"
proof -
  have r: "\<forall>x\<in>set [1, 1, 1::real]. in_range 200 200 x"
    by (simp add: in_range_def)
  have sums3: "foldl (\<lambda>s t. fl (s + fl t)) 0 [1, 1, 1] = 3"
    by (simp add: fl_small_integers)
  have "cosineSimilarity_double [1, 1, 1] [1, 1, 1]
      = Some (fl (fl (3 / fl (fl (sqrt 3) * fl (sqrt 3))) * fl (fl 0.7 + fl (fl 0.3 * fl 1))))"
    using cosineSimilarity_double_value [OF r r] by (simp add: fl_small_integers)
  also have "fl (fl (3 / fl (fl (sqrt 3) * fl (sqrt 3))) * fl (fl 0.7 + fl (fl 0.3 * fl 1)))
      = fl ((1 + 1 / 2 ^ 52) * fl (fl 0.7 + fl (fl 0.3 * 1)))"
    by (simp only: fl_sqrt_3 fl_square fl_quotient fl_small_integers)
  also have "\<dots> = fl ((1 + 1 / 2 ^ 52) * 1)"
    by (simp only: fl_literals fl_product_literal fl_factor)
  also have "\<dots> = 1 + 1 / 2 ^ 52" by (rule fl_result)
  finally show ?thesis by simp
qed

section \<open>Properties of the embedding\<close>

lemma length_createEmbedding: "length (createEmbedding this txt) = 384"
  by (simp add: createEmbedding_def length_embed)

lemma counts_ok_Nil: "counts_ok []"
  by (simp add: counts_ok_def)

lemma put_property_set: "set (put_property fs key v) \<subseteq> insert (key, v) (set fs)"
  by (induction fs) (auto split: if_splits)

lemma counts_ok_put: "counts_ok fs \<Longrightarrow> 0 \<le> r \<Longrightarrow> counts_ok (put_property fs key (JNum (Num r)))"
  using put_property_set [of fs key "JNum (Num r)"] by (auto simp: counts_ok_def)

lemma get_or_zero_ok:
  assumes "counts_ok fs" "inherited_text key = None"
  shows "\<exists>r\<ge>0. get_or_zero fs key = JNum (Num r)"
proof (cases "map_of fs key")
  case None
  with assms(2) show ?thesis by (simp add: get_or_zero_def)
next
  case (Some v)
  then have "(key, v) \<in> set fs" by (rule map_of_SomeD)
  with assms(1) obtain r where "0 \<le> r" "v = JNum (Num r)" by (auto simp: counts_ok_def)
  with Some show ?thesis by (simp add: get_or_zero_def)
qed

lemma set_property_ok:
  assumes "counts_ok fs" "key \<noteq> ''constructor''" "0 \<le> n"
  shows "counts_ok (set_property fs key (js_plus (get_or_zero fs key) n n_text))"
proof (cases "key = ''__proto__''")
  case True
  with assms(1) show ?thesis by (simp add: set_property_def)
next
  case False
  with assms(2) have "inherited_text key = None" by (simp add: inherited_text_def)
  from get_or_zero_ok [OF assms(1) this] obtain r where r: "0 \<le> r" "get_or_zero fs key = JNum (Num r)"
    by blast
  with assms(3) have "0 \<le> r + n" by simp
  from counts_ok_put [OF assms(1) this, of key] r False
  show ?thesis by (simp add: set_property_def)
qed

lemma add_unigram_ok:
  "counts_ok fs \<Longrightarrow> word \<noteq> ''constructor'' \<Longrightarrow> counts_ok (add_unigram stops fs word)"
  by (simp add: add_unigram_def set_property_ok)

lemma bigram_no_constructor: "word1 @ ''_'' @ word2 \<noteq> ''constructor''"
proof
  assume eq: "word1 @ ''_'' @ word2 = ''constructor''"
  have "CHR ''_'' \<in> set (word1 @ ''_'' @ word2)" by simp
  then have "CHR ''_'' \<in> set ''constructor''" unfolding eq .
  then show False by simp
qed

lemma add_bigram_ok:
  assumes "counts_ok fs"
  shows "counts_ok (add_bigram stops fs pair)"
proof (cases pair)
  case (Pair word1 word2)
  have "counts_ok (set_property fs (word1 @ ''_'' @ word2)
      (js_plus (get_or_zero fs (word1 @ ''_'' @ word2)) 0.8 ''0.8''))"
    using assms bigram_no_constructor by (rule set_property_ok) simp
  with assms show ?thesis unfolding add_bigram_def Pair by (simp add: Let_def)
qed

lemma foldl_add_unigram_ok:
  "counts_ok fs \<Longrightarrow> ''constructor'' \<notin> set ws \<Longrightarrow> counts_ok (foldl (add_unigram stops) fs ws)"
  by (induction ws arbitrary: fs) (auto simp: add_unigram_ok)

lemma foldl_add_bigram_ok:
  "counts_ok fs \<Longrightarrow> counts_ok (foldl (add_bigram stops) fs ps)"
  by (induction ps arbitrary: fs) (auto simp: add_bigram_ok)

lemma object_entries_set: "set (object_entries fs) = set fs"
  by (auto simp: object_entries_def)

lemma position_weight_ok:
  assumes "\<exists>r\<ge>0. snd e = JNum (Num r)"
  shows "\<exists>r\<ge>0. snd (position_weight ws e) = JNum (Num r)"
proof -
  obtain feature count where e: "e = (feature, count)" by (cases e)
  from assms e obtain r where r: "0 \<le> r" "count = JNum (Num r)" by auto
  show ?thesis
  proof (cases "findIndex (\<lambda>w. w = feature \<or> prefix (w @ ''_'') feature) ws")
    case None
    with e r show ?thesis by (simp add: position_weight_def)
  next
    case (Some p)
    have "real (min p 100) / 100 \<le> 1" by simp
    then have "0 \<le> 1.0 - real (min p 100) / 100 * 0.5" by simp
    with r(1) have "0 \<le> r * (1.0 - real (min p 100) / 100 * 0.5)" by (rule mult_nonneg_nonneg)
    with e r Some show ?thesis by (simp add: position_weight_def Let_def)
  qed
qed

lemma map_position_weight_ok:
  "counts_ok fs \<Longrightarrow> counts_ok (map (position_weight ws) fs)"
  using position_weight_ok by (auto simp: counts_ok_def)

lemma from_entries_ok_aux:
  "counts_ok obj \<Longrightarrow> counts_ok es \<Longrightarrow>
   counts_ok (foldl (\<lambda>obj e. put_property obj (fst e) (snd e)) obj es)"
proof (induction es arbitrary: obj)
  case Nil
  then show ?case by simp
next
  case (Cons e es)
  from Cons.prems(2) obtain r where r: "0 \<le> r" "snd e = JNum (Num r)"
    by (auto simp: counts_ok_def)
  from Cons.prems(2) have es: "counts_ok es" by (simp add: counts_ok_def)
  from counts_ok_put [OF Cons.prems(1) r(1), of "fst e"] r(2)
  have "counts_ok (put_property obj (fst e) (snd e))" by simp
  from Cons.IH [OF this es] show ?case by simp
qed

lemma from_entries_ok: "counts_ok es \<Longrightarrow> counts_ok (from_entries es)"
  unfolding from_entries_def by (rule from_entries_ok_aux [OF counts_ok_Nil])

lemma weight_of_ok:
  assumes "counts_ok pw" "feature \<in> fst ` set pw" "0 < n"
  shows "\<exists>r\<ge>0. weight_of pw feature n = Num r"
proof -
  from assms(2) obtain v where "map_of pw feature = Some v"
    by (metis domIff dom_map_of_conv_image_fst not_Some_eq)
  moreover from this have "(feature, v) \<in> set pw" by (rule map_of_SomeD)
  with assms(1) obtain r where "0 \<le> r" "v = JNum (Num r)" by (auto simp: counts_ok_def)
  ultimately have "weight_of pw feature n = Num (r / n)" "0 \<le> r / n"
    using assms(3) by (simp_all add: weight_of_def)
  then show ?thesis by blast
qed

lemma top_weights_nonneg:
  assumes "''constructor'' \<notin> set (split_spaces (cleanText txt))"
  shows "\<forall>x\<in>set (top_weights stops txt). \<exists>r\<ge>0. x = Num r"
proof -
  let ?words = "split_spaces (cleanText txt)"
  let ?features = "foldl (add_bigram stops) (foldl (add_unigram stops) [] ?words) (zip ?words (tl ?words))"
  let ?pw = "from_entries (map (position_weight ?words) (object_entries ?features))"
  let ?n = "if length ?words = 0 then 1 else real (length ?words)"
  have "counts_ok ?features"
    by (intro foldl_add_bigram_ok foldl_add_unigram_ok counts_ok_Nil assms)
  then have "counts_ok (object_entries ?features)"
    by (simp add: counts_ok_def object_entries_set)
  then have pw: "counts_ok ?pw"
    by (intro from_entries_ok map_position_weight_ok)
  have n: "0 < ?n" by simp
  have "\<exists>r\<ge>0. weight_of ?pw feature ?n = Num r"
    if "feature \<in> set (map fst (take 384
          (js_sort (\<lambda>a b. num_sub (to_number (snd b)) (to_number (snd a))) (object_entries ?pw))))"
    for feature
  proof -
    from that have "feature \<in> fst ` set (js_sort (\<lambda>a b. num_sub (to_number (snd b)) (to_number (snd a)))
        (object_entries ?pw))"
      by (auto dest: in_set_takeD)
    then have "feature \<in> fst ` set ?pw" by (simp add: js_sort_set object_entries_set)
    from weight_of_ok [OF pw this n] show ?thesis .
  qed
  then show ?thesis unfolding top_weights_def Let_def by auto
qed

lemma createEmbedding_nonneg:
  assumes "''constructor'' \<notin> set (split_spaces (cleanText txt))"
  shows "length (createEmbedding this txt) = 384 \<and>
         (\<forall>x\<in>set (createEmbedding this txt). \<exists>r\<ge>0. x = Num r)"
proof
  show "length (createEmbedding this txt) = 384"
    by (simp add: createEmbedding_def length_embed)
  show "\<forall>x\<in>set (createEmbedding this txt). \<exists>r\<ge>0. x = Num r"
    using top_weights_nonneg [OF assms, of "stopWords this"]
    by (auto simp: createEmbedding_def embed_eq)
qed

text \<open>
  C7. The vector has 384 entries, and when no word of the cleaned text is
  \<open>constructor\<close> every entry is a number that is not negative
  (\<open>createEmbedding_nonneg\<close>). For the text \<open>constructor\<close> the first entry is NaN:
  \<open>features\<close> is an object literal, so \<open>features["constructor"]\<close> reads the inherited
  function \<open>Object\<close>, \<open>+ 1\<close> makes a string of it, and the positional weight
  multiplies that string.
\<close>

theorem createEmbedding_constructor:
  "createEmbedding new_VectorStore ''constructor'' = NaN # replicate 383 (Num 0)"
  by (simp add: createEmbedding_def new_VectorStore_def embed_eq tw_constructor)

section \<open>Properties of the chunker\<close>

lemma match_scan_pending: "terms \<noteq> [] \<Longrightarrow> body \<noteq> [] \<Longrightarrow> match_scan body terms cs \<noteq> []"
  by (induction cs arbitrary: body terms) auto

lemma match_scan_empty: "(match_scan body [] cs = []) = no_match (body \<noteq> []) cs"
  by (induction cs arbitrary: body) (auto simp: match_scan_pending)

lemma no_match_boundary:
  "no_match False cs = (\<not> has_boundary cs)"
  "\<not> is_terminator x \<Longrightarrow> no_match True cs = (\<not> has_boundary (x # cs))"
proof (induction cs arbitrary: x)
  case Nil
  case 1 show ?case by simp
  case 2 show ?case by simp
next
  case (Cons c cs)
  case 1
  show ?case
  proof (cases "is_terminator c")
    case True
    then show ?thesis using Cons.IH(1) by (cases cs) auto
  next
    case False
    then show ?thesis using Cons.IH(2) [of c] by simp
  qed
  case 2
  show ?case
  proof (cases "is_terminator c")
    case True
    with 2 show ?thesis by simp
  next
    case False
    with 2 show ?thesis using Cons.IH(2) [of c] by simp
  qed
qed

lemma match_sentences_Nil: "(match_sentences c = []) = (\<not> has_boundary c)"
  by (simp add: match_sentences_def match_scan_empty no_match_boundary)

lemma has_boundary_index:
  "has_boundary c = (\<exists>i. Suc i < length c \<and> \<not> is_terminator (c ! i) \<and> is_terminator (c ! Suc i))"
proof (induction c rule: has_boundary.induct)
  case (1 a t cs)
  have "(\<exists>i. Suc i < length (a # t # cs) \<and> \<not> is_terminator ((a # t # cs) ! i)
            \<and> is_terminator ((a # t # cs) ! Suc i))
        = ((\<not> is_terminator a \<and> is_terminator t) \<or>
           (\<exists>i. Suc i < length (t # cs) \<and> \<not> is_terminator ((t # cs) ! i)
              \<and> is_terminator ((t # cs) ! Suc i)))"
  proof
    assume "\<exists>i. Suc i < length (a # t # cs) \<and> \<not> is_terminator ((a # t # cs) ! i)
            \<and> is_terminator ((a # t # cs) ! Suc i)"
    then obtain i where i: "Suc i < length (a # t # cs)" "\<not> is_terminator ((a # t # cs) ! i)"
      "is_terminator ((a # t # cs) ! Suc i)" by blast
    show "(\<not> is_terminator a \<and> is_terminator t) \<or>
           (\<exists>i. Suc i < length (t # cs) \<and> \<not> is_terminator ((t # cs) ! i)
              \<and> is_terminator ((t # cs) ! Suc i))"
    proof (cases i)
      case 0
      with i show ?thesis by simp
    next
      case (Suc k)
      with i have "Suc k < length (t # cs) \<and> \<not> is_terminator ((t # cs) ! k)
              \<and> is_terminator ((t # cs) ! Suc k)" by simp
      then show ?thesis by blast
    qed
  next
    assume "(\<not> is_terminator a \<and> is_terminator t) \<or>
           (\<exists>i. Suc i < length (t # cs) \<and> \<not> is_terminator ((t # cs) ! i)
              \<and> is_terminator ((t # cs) ! Suc i))"
    then show "\<exists>i. Suc i < length (a # t # cs) \<and> \<not> is_terminator ((a # t # cs) ! i)
            \<and> is_terminator ((a # t # cs) ! Suc i)"
    proof
      assume "\<not> is_terminator a \<and> is_terminator t"
      then have "Suc 0 < length (a # t # cs) \<and> \<not> is_terminator ((a # t # cs) ! 0)
            \<and> is_terminator ((a # t # cs) ! Suc 0)" by simp
      then show ?thesis by blast
    next
      assume "\<exists>i. Suc i < length (t # cs) \<and> \<not> is_terminator ((t # cs) ! i)
              \<and> is_terminator ((t # cs) ! Suc i)"
      then obtain i where "Suc i < length (t # cs)" "\<not> is_terminator ((t # cs) ! i)"
        "is_terminator ((t # cs) ! Suc i)" by blast
      then have "Suc (Suc i) < length (a # t # cs) \<and> \<not> is_terminator ((a # t # cs) ! Suc i)
            \<and> is_terminator ((a # t # cs) ! Suc (Suc i))" by simp
      then show ?thesis by blast
    qed
  qed
  with 1 show ?case by simp
qed simp_all

lemma trim_unchanged:
  "xs \<noteq> [] \<Longrightarrow> \<not> is_space (hd xs) \<Longrightarrow> \<not> is_space (last xs) \<Longrightarrow> trim xs = xs"
proof -
  assume a: "xs \<noteq> []" "\<not> is_space (hd xs)" "\<not> is_space (last xs)"
  from a(2) have d1: "dropWhile is_space xs = xs" by (simp add: dropWhile_eq_self_iff)
  from a(3) have d2: "dropWhile is_space (rev xs) = rev xs"
    by (simp add: dropWhile_eq_self_iff hd_rev)
  show ?thesis by (simp add: trim_def d1 d2)
qed

lemma short_sentence_facts:
  "\<not> is_space (CHR ''H'')" "\<not> is_space (CHR ''.'')" "\<not> is_space (CHR ''a'')"
  "is_space (CHR '' '')"
  by (simp_all add: is_space_def)

lemma match_short_sentence:
  "match_sentences (''Hi. '' @ replicate 60 (CHR ''a'')) = [''Hi.'']"
  by (simp add: match_sentences_def is_terminator_def match_scan_run)

lemma sentence_chunks_short: "sentence_chunks [''Hi.''] = []"
  by (simp add: sentence_chunks_def add_sentence_def trim_unchanged short_sentence_facts)

lemma paragraph_short_sentence:
  "paragraph_chunks (''Hi. '' @ replicate 60 (CHR ''a'')) = [''Hi. '' @ replicate 60 (CHR ''a'')]"
proof -
  have sp: "split_paragraphs (''Hi. '' @ replicate 60 (CHR ''a'')) = [''Hi. '' @ replicate 60 (CHR ''a'')]"
    by (simp add: split_paragraphs_def split_blank_run)
  have tr: "trim (''Hi. '' @ replicate 60 (CHR ''a'')) = ''Hi. '' @ replicate 60 (CHR ''a'')"
    by (rule trim_unchanged) (simp_all add: short_sentence_facts)
  show ?thesis unfolding paragraph_chunks_def sp by (simp add: tr [simplified])
qed

lemma has_boundary_run: "\<not> is_terminator c \<Longrightarrow> \<not> has_boundary (replicate n c)"
  using match_sentences_Nil [of "replicate n c"]
  by (simp add: match_sentences_def match_scan_run)

lemma paragraph_chunks_run:
  "\<not> is_space c \<Longrightarrow> c \<noteq> CHR 0x0A \<Longrightarrow> 50 < n \<Longrightarrow> paragraph_chunks (replicate n c) = [replicate n c]"
  by (simp add: paragraph_chunks_def split_paragraphs_def split_blank_run trim_run)

lemma window_chunks_run:
  "\<not> is_space c \<Longrightarrow> 50 < n \<Longrightarrow> window_chunks (replicate n c) = [replicate n c]"
  by (simp add: window_chunks_def split_spaces_def split_fields_run
      word_windows.simps [of "[replicate n c]"] word_windows.simps [of "[]"])

text \<open>
  C3, as the code has it. The fallback is taken when the sentence pattern matches nowhere
  in the content, that is when no terminator directly follows a character that is no
  terminator: then the chunks are the usable paragraphs, and the 200-word windows in
  their place when there is at most one usable paragraph and the content has more than
  500 characters. When the pattern matches somewhere, the chunks are those of the
  sentence tier and no fallback is tried, also when every sentence is discarded.

  In the example the content is a short sentence and 60 letters: the only sentence is
  discarded, the paragraph tier would give one chunk, and the document gets no chunk.
\<close>

theorem fallback_only_without_sentences:
  "(\<not> has_boundary c \<longrightarrow>
      chunk_content c
        = (if length (paragraph_chunks c) \<le> 1 \<and> length c > 500 then window_chunks c
           else paragraph_chunks c)) \<and>
   (has_boundary c \<longrightarrow> chunk_content c = sentence_chunks (match_sentences c))"
  using match_sentences_Nil [of c]
  by (auto simp: chunk_content_def fallback_chunks_def Let_def)

theorem fallback_only_without_sentences_witness:
  "\<not> has_boundary (replicate 55 (CHR ''a'')) \<and>
   chunk_content (replicate 55 (CHR ''a'')) = paragraph_chunks (replicate 55 (CHR ''a'')) \<and>
   paragraph_chunks (replicate 55 (CHR ''a'')) = [replicate 55 (CHR ''a'')] \<and>
   \<not> has_boundary (replicate 501 (CHR ''a'')) \<and>
   chunk_content (replicate 501 (CHR ''a'')) = window_chunks (replicate 501 (CHR ''a'')) \<and>
   window_chunks (replicate 501 (CHR ''a'')) = [replicate 501 (CHR ''a'')] \<and>
   has_boundary (''Hi. '' @ replicate 60 (CHR ''a'')) \<and>
   chunk_content (''Hi. '' @ replicate 60 (CHR ''a''))
     = sentence_chunks (match_sentences (''Hi. '' @ replicate 60 (CHR ''a'')))"
proof -
  have a: "\<not> is_terminator (CHR ''a'')" by (simp add: is_terminator_def)
  have b1: "\<not> has_boundary (replicate 55 (CHR ''a''))" using a by (rule has_boundary_run)
  have b2: "\<not> has_boundary (replicate 501 (CHR ''a''))" using a by (rule has_boundary_run)
  have b3: "has_boundary (''Hi. '' @ replicate 60 (CHR ''a''))"
    using match_sentences_Nil [of "''Hi. '' @ replicate 60 (CHR ''a'')"]
    unfolding match_short_sentence by simp
  have p1: "paragraph_chunks (replicate 55 (CHR ''a'')) = [replicate 55 (CHR ''a'')]"
    by (rule paragraph_chunks_run) (simp_all add: short_sentence_facts)
  have p2: "paragraph_chunks (replicate 501 (CHR ''a'')) = [replicate 501 (CHR ''a'')]"
    by (rule paragraph_chunks_run) (simp_all add: short_sentence_facts)
  have w2: "window_chunks (replicate 501 (CHR ''a'')) = [replicate 501 (CHR ''a'')]"
    by (rule window_chunks_run) (simp_all add: short_sentence_facts)
  from b1 b2 b3 p1 p2 w2
    fallback_only_without_sentences [of "replicate 55 (CHR ''a'')"]
    fallback_only_without_sentences [of "replicate 501 (CHR ''a'')"]
    fallback_only_without_sentences [of "''Hi. '' @ replicate 60 (CHR ''a'')"]
  show ?thesis by simp
qed

theorem no_fallback_after_short_sentence_counterexample:
  "match_sentences (''Hi. '' @ replicate 60 (CHR ''a'')) = [''Hi.''] \<and>
   sentence_chunks (match_sentences (''Hi. '' @ replicate 60 (CHR ''a''))) = [] \<and>
   paragraph_chunks (''Hi. '' @ replicate 60 (CHR ''a'')) = [''Hi. '' @ replicate 60 (CHR ''a'')] \<and>
   fallback_chunks (''Hi. '' @ replicate 60 (CHR ''a'')) = [''Hi. '' @ replicate 60 (CHR ''a'')] \<and>
   chunk_content (''Hi. '' @ replicate 60 (CHR ''a'')) = [] \<and>
   chunk_content (''Hi. '' @ replicate 60 (CHR ''a'')) \<noteq> fallback_chunks (''Hi. '' @ replicate 60 (CHR ''a''))"
  unfolding chunk_content_def fallback_chunks_def Let_def match_short_sentence
    sentence_chunks_short paragraph_short_sentence
  by simp

end
